theory Spec2Isabelle
  imports Complex_Main
begin

section \<open>Python values\<close>

text \<open>
  The values the game receives from outside (a tile layout read from JSON, a location
  named by an attacker, the members of a decision): an int, a bool, \<open>None\<close>, a list,
  or an object of any other type (a string, a float, ...), kept by the text Python
  prints for it as an element of a list (its \<open>repr()\<close>: a string with its quotes).
  \<open>type(x) is int\<close> holds for \<open>PInt\<close> only (a bool is not an int for \<open>type\<close>).
\<close>

datatype pyval = PInt int | PBool bool | PNone | PList "pyval list" | POther string

text \<open>
  What \<open>think()\<close> returns: a dict (a finite map; the keys are strings) or any other
  object.
\<close>

datatype instruction = Dict "string \<rightharpoonup> pyval" | NotDict pyval

text \<open>The exceptions the modelled code raises, and \<open>sys.exit()\<close>.\<close>

datatype error =
    Exception string
  | IndexError
  | TypeError
  | ValueError
  | ZeroDivisionError
  | RecursionError
  | SystemExit

section \<open>Base_Attacker.get_place_instruction\<close>

text \<open>
  The wrapper calls \<open>think\<close> and checks what it returned. In the source the loop over
  the elements of the location stands after the \<open>raise\<close> of the branch
  \<open>type(location) is not list\<close>, inside that branch: it never runs, so a location that
  is a list passes whatever it holds.
\<close>

definition get_place_instruction ::
  "('t \<Rightarrow> error + instruction) \<Rightarrow> 't \<Rightarrow> error + instruction" where
  "get_place_instruction think tiles =
     (case think tiles of
        Inl e \<Rightarrow> Inl e
      | Inr place_instruction \<Rightarrow>
          (case place_instruction of
             NotDict _ \<Rightarrow> Inl (Exception ''place_instruction is not a dictionary'')
           | Dict d \<Rightarrow>
               if card (dom d) \<noteq> 2
               then Inl (Exception ''place_instruction does not have two members only'')
               else
                 (case (d ''keepgoing'', d ''location'') of
                    (Some keepgoing, Some location) \<Rightarrow>
                      (case keepgoing of
                         PBool k \<Rightarrow>
                           if k then
                             (case location of
                                PList _ \<Rightarrow> Inr place_instruction
                              | _ \<Rightarrow> Inl (Exception ''place location is not a list''))
                           else Inr place_instruction
                       | _ \<Rightarrow> Inl (Exception ''place keepgoing is not a bool''))
                  | _ \<Rightarrow>
                      Inl (Exception ''place_instruction does not have expected members''))))"


section \<open>The board\<close>

text \<open>
  The tiles of a \<open>Board\<close>: nested lists of ints, as \<open>__init__\<close> builds or validates
  them. The board is a value here: lists are not shared (the layouts the game reads come
  from \<open>json.loads\<close> and from \<open>deepcopy\<close>, which build trees).
\<close>

datatype tiles = Tile int | Nested "tiles list"

record board =
  get_shape :: "nat list"
  get_tiles :: tiles

text \<open>Python's \<open>xs[i]\<close>: a negative index counts from the end; out of range raises.\<close>

definition py_pos :: "'a list \<Rightarrow> int \<Rightarrow> nat" where
  "py_pos xs i = nat (if i < 0 then int (length xs) + i else i)"

definition py_index :: "'a list \<Rightarrow> int \<Rightarrow> error + 'a" where
  "py_index xs i =
     (if - int (length xs) \<le> i \<and> i < int (length xs) then Inr (xs ! py_pos xs i)
      else Inl IndexError)"

fun get_tile :: "tiles \<Rightarrow> int list \<Rightarrow> error + tiles" where
  "get_tile tile [] = Inr tile"
| "get_tile (Tile v) (i # location) = Inl TypeError"
| "get_tile (Nested ts) (i # location) =
     (case py_index ts i of Inl e \<Rightarrow> Inl e | Inr t \<Rightarrow> get_tile t location)"

text \<open>
  \<open>__set_tile\<close> walks to the innermost list and assigns \<open>tile[location[-1]] = number\<close>;
  the model returns the updated tree.
\<close>

fun set_tile :: "tiles \<Rightarrow> int list \<Rightarrow> tiles \<Rightarrow> error + tiles" where
  "set_tile tile [] number = Inl IndexError"
| "set_tile (Tile v) (i # location) number = Inl TypeError"
| "set_tile (Nested ts) [i] number =
     (case py_index ts i of
        Inl e \<Rightarrow> Inl e
      | Inr _ \<Rightarrow> Inr (Nested (ts[py_pos ts i := number])))"
| "set_tile (Nested ts) (i # j # location) number =
     (case py_index ts i of
        Inl e \<Rightarrow> Inl e
      | Inr t \<Rightarrow>
          (case set_tile t (j # location) number of
             Inl e \<Rightarrow> Inl e
           | Inr t' \<Rightarrow> Inr (Nested (ts[py_pos ts i := t']))))"

subsection \<open>Board.place\<close>

text \<open>
  The loop of \<open>place\<close> over the components of the location, paired with the shape:
  \<open>None\<close> is its \<open>return False\<close> (a component that is not an int, or out of bounds),
  \<open>Some\<close> the location as ints.
\<close>

fun location_in_shape :: "(pyval \<times> nat) list \<Rightarrow> int list option" where
  "location_in_shape [] = Some []"
| "location_in_shape ((PInt v, n) # rest) =
     (if \<not> (0 \<le> v \<and> v < int n) then None
      else map_option ((#) v) (location_in_shape rest))"
| "location_in_shape ((_, n) # rest) = None"

text \<open>\<open>r\<close> is the value \<open>random.randint(0,9)\<close> returns in this call.\<close>

definition place :: "board \<Rightarrow> pyval list \<Rightarrow> int \<Rightarrow> error + (bool \<times> board)" where
  "place b location r =
     (if length location \<noteq> length (get_shape b) then Inr (False, b)
      else
        (case location_in_shape (zip location (get_shape b)) of
           None \<Rightarrow> Inr (False, b)
         | Some loc \<Rightarrow>
             (case get_tile (get_tiles b) loc of
                Inl e \<Rightarrow> Inl e
              | Inr t \<Rightarrow>
                  if t = Tile 0 then
                    (case set_tile (get_tiles b) loc (Tile (if r < 9 then 2 else 4)) of
                       Inl e \<Rightarrow> Inl e
                     | Inr t' \<Rightarrow> Inr (True, b\<lparr>get_tiles := t'\<rparr>))
                  else Inr (False, b))))"

subsection \<open>Board.move\<close>

text \<open>
  \<open>__generate_sequential_coordinates\<close>: all coordinates start as zeros; the loop over
  the dimensions then writes, for every index of the list, the digit of that index at
  the dimension \<open>dim'\<close> (the source's \<open>dim\<close>; counted down at the moved dimension when the direction is not \<open>-1\<close>).
  \<open>fraction // dim_length\<close> raises on a dimension of length zero.
\<close>

definition tile_count :: "nat list \<Rightarrow> nat" where
  "tile_count shape = fold (\<lambda>dim_length tile_count. tile_count * dim_length) shape 1"

fun fill_coordinates ::
  "nat \<Rightarrow> int \<Rightarrow> (nat \<times> nat) list \<Rightarrow> nat \<Rightarrow> int list list \<Rightarrow> error + int list list" where
  "fill_coordinates dimension direction [] fraction sequential_coordinates =
     Inr sequential_coordinates"
| "fill_coordinates dimension direction ((dim', dim_length) # rest) fraction
       sequential_coordinates =
     (if dim_length = 0 then Inl ZeroDivisionError
      else
        fill_coordinates dimension direction rest (fraction div dim_length)
          (map (\<lambda>(index_coordinate, coordinate).
                  coordinate[dim' :=
                    (if direction = -1 \<or> dimension \<noteq> dim'
                     then int (index_coordinate div (fraction div dim_length) mod dim_length)
                     else int dim_length - 1
                          - int (index_coordinate div (fraction div dim_length) mod dim_length))])
             (enumerate 0 sequential_coordinates)))"

definition generate_sequential_coordinates ::
  "nat list \<Rightarrow> nat \<Rightarrow> int \<Rightarrow> error + int list list" where
  "generate_sequential_coordinates shape dimension direction =
     fill_coordinates dimension direction (enumerate 0 shape) (tile_count shape)
       (replicate (tile_count shape) (replicate (length shape) 0))"

text \<open>\<open>target*2\<close>: an int is doubled (on a list, \<open>*\<close> repeats the list).\<close>

fun double :: "tiles \<Rightarrow> tiles" where
  "double (Tile v) = Tile (v * 2)"
| "double (Nested ts) = Nested (ts @ ts)"

text \<open>
  The recursion of \<open>move_tile\<close> ends on every input: a step is made only after the
  target cell was read, so its index lies within the longest list of the tiles, and the
  assignments do not lengthen any list.
\<close>

fun maxlen :: "tiles \<Rightarrow> nat" where
  "maxlen (Tile v) = 0"
| "maxlen (Nested ts) = Max (set (length ts # map maxlen ts))"

lemma maxlen_length: "length ts \<le> maxlen (Nested ts)"
  by simp

lemma maxlen_le_iff:
  "maxlen (Nested ts) \<le> m \<longleftrightarrow> length ts \<le> m \<and> (\<forall>t\<in>set ts. maxlen t \<le> m)"
  by (simp add: Max_le_iff)

lemma maxlen_elem: "t \<in> set ts \<Longrightarrow> maxlen t \<le> maxlen (Nested ts)"
  by (simp add: Max_ge_iff)

declare maxlen.simps(2) [simp del]

lemma py_index_Inr:
  "py_index xs i = Inr x \<Longrightarrow>
   - int (length xs) \<le> i \<and> i < int (length xs) \<and> py_pos xs i < length xs \<and> x = xs ! py_pos xs i"
  by (auto simp: py_index_def py_pos_def split: if_splits)

lemma get_tile_maxlen: "get_tile t c = Inr x \<Longrightarrow> maxlen x \<le> maxlen t"
proof (induction t c rule: get_tile.induct)
  case (3 ts i location)
  from "3.prems" obtain u where u: "py_index ts i = Inr u" "get_tile u location = Inr x"
    by (auto split: sum.splits)
  from py_index_Inr[OF u(1)] have "u \<in> set ts" by auto
  from maxlen_elem[OF this] "3.IH"[OF u] show ?case by linarith
qed auto

lemma get_tile_bound:
  "get_tile t c = Inr x \<Longrightarrow> k < length c \<Longrightarrow>
   - int (maxlen t) \<le> c ! k \<and> c ! k < int (maxlen t)"
proof (induction t c arbitrary: k rule: get_tile.induct)
  case (3 ts i location)
  from "3.prems" obtain u where u: "py_index ts i = Inr u" "get_tile u location = Inr x"
    by (auto split: sum.splits)
  from py_index_Inr[OF u(1)]
  have b: "- int (length ts) \<le> i" "i < int (length ts)" "u \<in> set ts" by auto
  have l: "length ts \<le> maxlen (Nested ts)" by (rule maxlen_length)
  show ?case
  proof (cases k)
    case 0
    then show ?thesis using b l by simp
  next
    case (Suc k')
    then have "k' < length location" using "3.prems" by simp
    from "3.IH"[OF u this] maxlen_elem[OF b(3)] show ?thesis using Suc by simp
  qed
qed auto

lemma maxlen_update:
  assumes "k < length ts" "maxlen u \<le> m" "maxlen (Nested ts) \<le> m"
  shows "maxlen (Nested (ts[k := u])) \<le> m"
proof -
  have "\<forall>x \<in> set (ts[k := u]). maxlen x \<le> m"
  proof
    fix x assume "x \<in> set (ts[k := u])"
    then have "x = u \<or> x \<in> set ts" using set_update_subset_insert[of ts k u] by auto
    then show "maxlen x \<le> m" using assms(2,3) maxlen_elem[of x ts] by auto
  qed
  moreover have "length ts \<le> m" using assms(3) maxlen_length[of ts] by linarith
  ultimately show ?thesis by (simp add: maxlen_le_iff)
qed

lemma set_tile_maxlen:
  "set_tile t c x = Inr t' \<Longrightarrow> maxlen t' \<le> max (maxlen t) (maxlen x)"
proof (induction t c x arbitrary: t' rule: set_tile.induct)
  case (3 ts i number)
  then obtain u where u: "py_index ts i = Inr u"
    and t': "t' = Nested (ts[py_pos ts i := number])"
    by (auto split: sum.splits)
  from py_index_Inr[OF u] have "py_pos ts i < length ts" by simp
  from maxlen_update[OF this, of number "max (maxlen (Nested ts)) (maxlen number)"]
  show ?case unfolding t' by simp
next
  case (4 ts i j location number)
  then obtain u u' where u: "py_index ts i = Inr u"
    and u': "set_tile u (j # location) number = Inr u'"
    and t': "t' = Nested (ts[py_pos ts i := u'])"
    by (auto split: sum.splits)
  from py_index_Inr[OF u] have p: "py_pos ts i < length ts" "u \<in> set ts" by auto
  from "4.IH"[OF u u'] maxlen_elem[OF p(2)]
  have "maxlen u' \<le> max (maxlen (Nested ts)) (maxlen number)" by linarith
  from maxlen_update[OF p(1) this]
  show ?case unfolding t' by simp
qed auto

text \<open>
  \<open>move_tile\<close>, the inner function of \<open>move\<close>. The state it shares with \<open>move\<close> (the
  tiles and \<open>blocked_coordinates\<close>) is passed in and returned with the steps.
  \<open>coordinate[dimension]\<close> and \<open>self.__shape[dimension]\<close> raise out of range.
\<close>

function move_tile ::
  "nat list \<Rightarrow> nat \<Rightarrow> int \<Rightarrow> tiles \<times> int list list \<Rightarrow> int list \<Rightarrow>
   error + (nat \<times> tiles \<times> int list list)" where
  "move_tile shape dimension direction (tiles, blocked_coordinates) coordinate =
     (if length coordinate \<le> dimension then Inl IndexError
      else if direction \<noteq> -1 \<and> length shape \<le> dimension then Inl IndexError
      else if coordinate ! dimension
                = (if direction = -1 then 0 else int (shape ! dimension) - 1)
        then Inr (0, tiles, blocked_coordinates)
      else
        (case get_tile tiles coordinate of
           Inl e \<Rightarrow> Inl e
         | Inr source \<Rightarrow>
             if source = Tile 0 then Inr (0, tiles, blocked_coordinates)
             else if coordinate[dimension := coordinate ! dimension + direction]
                       \<in> set blocked_coordinates
               then Inr (0, tiles, blocked_coordinates)
             else
               (case get_tile tiles
                       (coordinate[dimension := coordinate ! dimension + direction]) of
                  Inl e \<Rightarrow> Inl e
                | Inr target \<Rightarrow>
                    if source = target then
                      (case set_tile tiles
                              (coordinate[dimension := coordinate ! dimension + direction])
                              (double target) of
                         Inl e \<Rightarrow> Inl e
                       | Inr tiles1 \<Rightarrow>
                           (case set_tile tiles1 coordinate (Tile 0) of
                              Inl e \<Rightarrow> Inl e
                            | Inr tiles2 \<Rightarrow>
                                Inr (1, tiles2,
                                     blocked_coordinates @
                                       [coordinate[dimension :=
                                          coordinate ! dimension + direction]])))
                    else if target = Tile 0 then
                      (case set_tile tiles
                              (coordinate[dimension := coordinate ! dimension + direction])
                              source of
                         Inl e \<Rightarrow> Inl e
                       | Inr tiles1 \<Rightarrow>
                           (case set_tile tiles1 coordinate (Tile 0) of
                              Inl e \<Rightarrow> Inl e
                            | Inr tiles2 \<Rightarrow>
                                (case move_tile shape dimension direction
                                        (tiles2, blocked_coordinates)
                                        (coordinate[dimension :=
                                           coordinate ! dimension + direction]) of
                                   Inl e \<Rightarrow> Inl e
                                 | Inr (steps, tiles3, blocked3) \<Rightarrow>
                                     Inr (1 + steps, tiles3, blocked3))))
                    else Inr (0, tiles, blocked_coordinates))))"
  by pat_completeness auto
termination
proof (relation "measure (\<lambda>(shape, dimension, direction, (tiles, blocked), coordinate).
          if direction < 0 then nat (int (maxlen tiles) + coordinate ! dimension + 1)
          else nat (int (maxlen tiles) - coordinate ! dimension))", goal_cases)
  case 1
  show ?case by simp
next
  case (2 shape dimension direction tiles blocked coordinate source target tiles1 tiles2)
  let ?tc = "coordinate[dimension := coordinate ! dimension + direction]"
  have d: "dimension < length coordinate" using 2 by simp
  have ne: "direction \<noteq> 0"
  proof
    assume "direction = 0"
    then have "?tc = coordinate" by simp
    with 2 show False by simp
  qed
  have tcd: "?tc ! dimension = coordinate ! dimension + direction" using d by simp
  from get_tile_bound[OF 2(7), of dimension] d tcd
  have b: "- int (maxlen tiles) \<le> coordinate ! dimension + direction"
    "coordinate ! dimension + direction < int (maxlen tiles)" by simp_all
  have "maxlen source \<le> maxlen tiles" using get_tile_maxlen 2 by blast
  with set_tile_maxlen[OF 2(10)] have m1: "maxlen tiles1 \<le> maxlen tiles" by simp
  with set_tile_maxlen[OF 2(11)] have m2: "maxlen tiles2 \<le> maxlen tiles" by simp
  show ?case using b m2 ne tcd by auto
qed

declare move_tile.simps [simp del]

text \<open>The loop of \<open>move\<close> over \<open>sequential_coordinates\<close>, adding up the steps.\<close>

fun move_loop ::
  "nat list \<Rightarrow> nat \<Rightarrow> int \<Rightarrow> int list list \<Rightarrow> nat \<times> tiles \<times> int list list \<Rightarrow>
   error + (nat \<times> tiles \<times> int list list)" where
  "move_loop shape dimension direction [] (steps, tiles, blocked_coordinates) =
     Inr (steps, tiles, blocked_coordinates)"
| "move_loop shape dimension direction (coordinate # rest) (steps, tiles, blocked_coordinates) =
     (case move_tile shape dimension direction (tiles, blocked_coordinates) coordinate of
        Inl e \<Rightarrow> Inl e
      | Inr (s, tiles', blocked') \<Rightarrow>
          move_loop shape dimension direction rest (steps + s, tiles', blocked'))"

text \<open>
  \<open>move\<close> up to the end of its loop: the steps, the tiles and the coordinates that
  received a merge; \<open>None\<close> is the \<open>return False\<close> of the two checks of the arguments.
\<close>

definition move_run ::
  "board \<Rightarrow> int \<Rightarrow> int \<Rightarrow> error + (nat \<times> tiles \<times> int list list) option" where
  "move_run b dimension direction =
     (if \<not> (0 \<le> dimension \<and> dimension < int (length (get_shape b))) then Inr None
      else if direction \<noteq> -1 \<and> direction \<noteq> 1 then Inr None
      else
        (case generate_sequential_coordinates (get_shape b) (nat dimension) direction of
           Inl e \<Rightarrow> Inl e
         | Inr sequential_coordinates \<Rightarrow>
             (case move_loop (get_shape b) (nat dimension) direction sequential_coordinates
                     (0, get_tiles b, []) of
                Inl e \<Rightarrow> Inl e
              | Inr r \<Rightarrow> Inr (Some r))))"

definition move :: "board \<Rightarrow> int \<Rightarrow> int \<Rightarrow> error + (bool \<times> board)" where
  "move b dimension direction =
     (case move_run b dimension direction of
        Inl e \<Rightarrow> Inl e
      | Inr None \<Rightarrow> Inr (False, b)
      | Inr (Some (steps, tiles, blocked_coordinates)) \<Rightarrow>
          Inr (steps > 0, b\<lparr>get_tiles := tiles\<rparr>))"

subsection \<open>Board.__init__ from a shape\<close>

text \<open>
  The branch of \<open>__init__\<close> taken when no layout is given: the shape is a tuple of ints
  (the types exclude anything else), of rank 1 to 4, each length in 2..10; the grid is
  filled with zeros from the innermost dimension out.
\<close>

definition init_shape :: "int list \<Rightarrow> error + board" where
  "init_shape shape =
     (if length shape = 0 then Inl (Exception ''Shape is not properly specified'')
      else if length shape > 4
        then Inl (Exception ''Shape is not allowed to be more than 4 dimensions'')
      else if list_ex (\<lambda>dim_length. dim_length < 2 \<or> dim_length > 10) shape
        then Inl (Exception ''Shape is too small or too large'')
      else Inr \<lparr>get_shape = map nat shape,
                get_tiles = foldr (\<lambda>dim_length tile. Nested (replicate (nat dim_length) tile))
                              shape (Tile 0)\<rparr>)"

subsection \<open>Regular boards\<close>

text \<open>
  The invariant \<open>__init__\<close> establishes: the tiles are nested to the rank of the shape,
  every list at depth \<open>d\<close> has the length \<open>shape[d]\<close>, and the leaves are ints.
\<close>

fun regular :: "nat list \<Rightarrow> tiles \<Rightarrow> bool" where
  "regular [] (Tile v) = True"
| "regular (n # shape) (Nested ts) = (length ts = n \<and> list_all (regular shape) ts)"
| "regular _ _ = False"

text \<open>A coordinate of the shape: one index per dimension, each within its length.\<close>

definition in_shape :: "nat list \<Rightarrow> int list \<Rightarrow> bool" where
  "in_shape shape c = list_all2 (\<lambda>i n. 0 \<le> i \<and> i < int n) c shape"

section \<open>Reasoning about regular boards\<close>

text \<open>
  On a regular board a coordinate of the shape names an int: \<open>tile_at\<close> reads it and
  \<open>upd\<close> writes it. \<open>step\<close> is the neighbour of a coordinate in the direction of the
  move, \<open>at_wall\<close> the test that there is none, \<open>wall_dist\<close> the number of cells
  between a coordinate and the wall the move goes to.
\<close>

definition tile_at :: "tiles \<Rightarrow> int list \<Rightarrow> int" where
  "tile_at t c = (case get_tile t c of Inr (Tile v) \<Rightarrow> v | _ \<Rightarrow> 0)"

definition upd :: "tiles \<Rightarrow> int list \<Rightarrow> int \<Rightarrow> tiles" where
  "upd t c v = (case set_tile t c (Tile v) of Inr t' \<Rightarrow> t' | Inl _ \<Rightarrow> t)"

definition step :: "nat \<Rightarrow> int \<Rightarrow> int list \<Rightarrow> int list" where
  "step dimension direction c = c[dimension := c ! dimension + direction]"

definition at_wall :: "nat list \<Rightarrow> nat \<Rightarrow> int \<Rightarrow> int list \<Rightarrow> bool" where
  "at_wall shape dimension direction c \<longleftrightarrow>
     c ! dimension = (if direction = -1 then 0 else int (shape ! dimension) - 1)"

definition wall_dist :: "nat list \<Rightarrow> nat \<Rightarrow> int \<Rightarrow> int list \<Rightarrow> nat" where
  "wall_dist shape dimension direction c =
     nat (if direction = -1 then c ! dimension else int (shape ! dimension) - 1 - c ! dimension)"

lemma py_index_in: "0 \<le> i \<Longrightarrow> i < int (length xs) \<Longrightarrow> py_index xs i = Inr (xs ! nat i)"
  by (simp add: py_index_def py_pos_def)

lemma py_pos_in: "0 \<le> i \<Longrightarrow> py_pos xs i = nat i"
  by (simp add: py_pos_def)

lemma in_shape_Nil [simp]: "in_shape [] c \<longleftrightarrow> c = []"
  by (simp add: in_shape_def)

lemma in_shape_Cons:
  "in_shape (n # shape) c \<longleftrightarrow>
   (\<exists>i c'. c = i # c' \<and> 0 \<le> i \<and> i < int n \<and> in_shape shape c')"
  by (auto simp: in_shape_def list_all2_Cons2)

lemma in_shape_iff:
  "in_shape shape c \<longleftrightarrow>
   length c = length shape \<and> (\<forall>k<length shape. 0 \<le> c ! k \<and> c ! k < int (shape ! k))"
  by (auto simp: in_shape_def list_all2_conv_all_nth)

lemma get_tile_regular:
  "regular shape t \<Longrightarrow> in_shape shape c \<Longrightarrow> get_tile t c = Inr (Tile (tile_at t c))"
proof (induction shape arbitrary: t c)
  case Nil
  then show ?case by (cases t) (auto simp: tile_at_def)
next
  case (Cons n shape)
  from Cons.prems(1) obtain ts where t: "t = Nested ts" and len: "length ts = n"
    and all: "list_all (regular shape) ts" by (cases t) auto
  from Cons.prems(2) obtain i c' where c: "c = i # c'" and i: "0 \<le> i" "i < int n"
    and c': "in_shape shape c'" by (auto simp: in_shape_Cons)
  have "regular shape (ts ! nat i)" using all i len by (simp add: list_all_length)
  from Cons.IH[OF this c'] show ?case using i len
    by (simp add: t c py_index_in tile_at_def)
qed

lemma set_tile_ex:
  "regular shape t \<Longrightarrow> in_shape shape c \<Longrightarrow> shape \<noteq> [] \<Longrightarrow>
   \<exists>t'. set_tile t c (Tile v) = Inr t' \<and> regular shape t' \<and>
     (\<forall>c'. in_shape shape c' \<longrightarrow> tile_at t' c' = (if c' = c then v else tile_at t c'))"
proof (induction shape arbitrary: t c)
  case Nil
  then show ?case by simp
next
  case (Cons n shape)
  from Cons.prems(1) obtain ts where t: "t = Nested ts" and len: "length ts = n"
    and all: "list_all (regular shape) ts" by (cases t) auto
  from Cons.prems(2) obtain i d where c: "c = i # d" and i: "0 \<le> i" "i < int n"
    and d: "in_shape shape d" by (auto simp: in_shape_Cons)
  have r: "regular shape (ts ! nat i)" using all i len by (simp add: list_all_length)
  have a: "tile_at (Nested xs) (k # e) = tile_at (xs ! nat k) e"
    if "length xs = n" "0 \<le> k" "k < int n" for xs k e
    using that by (simp add: tile_at_def py_index_in)
  show ?case
  proof (cases shape)
    case Nil
    then have dn: "d = []" using d by simp
    have s: "set_tile t c (Tile v) = Inr (Nested (ts[nat i := Tile v]))"
      using i len by (simp add: t c dn py_index_in py_pos_in)
    have reg: "regular (n # shape) (Nested (ts[nat i := Tile v]))"
      using all len Nil i by (auto simp: list_all_length nth_list_update)
    have "tile_at (Nested (ts[nat i := Tile v])) c' = (if c' = c then v else tile_at t c')"
      if "in_shape (n # shape) c'" for c'
    proof -
      from that Nil obtain i' where c': "c' = [i']" and i': "0 \<le> i'" "i' < int n"
        by (auto simp: in_shape_Cons)
      have "i' \<noteq> i \<Longrightarrow> nat i' \<noteq> nat i" using i i' by auto
      then show ?thesis using i i' len
        by (auto simp: c c' dn t tile_at_def py_index_in nth_list_update)
    qed
    with s reg show ?thesis by blast
  next
    case (Cons m shape')
    then obtain j d2 where d2: "d = j # d2" using d by (auto simp: in_shape_Cons)
    from Cons.IH[OF r d] Cons obtain u where
      u: "set_tile (ts ! nat i) d (Tile v) = Inr u" and ru: "regular shape u"
      and gu: "\<And>d'. in_shape shape d' \<Longrightarrow>
                 tile_at u d' = (if d' = d then v else tile_at (ts ! nat i) d')"
      by blast
    have s: "set_tile t c (Tile v) = Inr (Nested (ts[nat i := u]))"
      using i len u by (simp add: t c d2 py_index_in py_pos_in)
    have reg: "regular (n # shape) (Nested (ts[nat i := u]))"
      using all len ru i by (auto simp: list_all_length nth_list_update)
    have "tile_at (Nested (ts[nat i := u])) c' = (if c' = c then v else tile_at t c')"
      if "in_shape (n # shape) c'" for c'
    proof -
      from that obtain i' d' where c': "c' = i' # d'" and i': "0 \<le> i'" "i' < int n"
        and d': "in_shape shape d'" by (auto simp: in_shape_Cons)
      have ne: "i' \<noteq> i \<Longrightarrow> nat i' \<noteq> nat i" using i i' by auto
      show ?thesis
      proof (cases "i' = i")
        case True
        then show ?thesis using gu[OF d'] i len by (simp add: c c' t a)
      next
        case False
        then show ?thesis using ne i i' len by (simp add: c c' t a)
      qed
    qed
    with s reg show ?thesis by blast
  qed
qed

lemma set_tile_regular:
  assumes "regular shape t" "in_shape shape c" "shape \<noteq> []"
  shows "set_tile t c (Tile v) = Inr (upd t c v)"
    and "regular shape (upd t c v)"
    and "in_shape shape c' \<Longrightarrow> tile_at (upd t c v) c' = (if c' = c then v else tile_at t c')"
proof -
  from set_tile_ex[OF assms, of v] obtain t' where
    t': "set_tile t c (Tile v) = Inr t'" "regular shape t'"
    "\<And>c'. in_shape shape c' \<Longrightarrow> tile_at t' c' = (if c' = c then v else tile_at t c')"
    by blast
  have u: "upd t c v = t'" by (simp add: upd_def t'(1))
  show "set_tile t c (Tile v) = Inr (upd t c v)" by (simp add: u t'(1))
  show "regular shape (upd t c v)" by (simp add: u t'(2))
  show "in_shape shape c' \<Longrightarrow> tile_at (upd t c v) c' = (if c' = c then v else tile_at t c')"
    by (simp add: u t'(3))
qed

lemma in_shape_step:
  assumes "in_shape shape c" "dimension < length shape" "direction = -1 \<or> direction = 1"
    "\<not> at_wall shape dimension direction c"
  shows "in_shape shape (step dimension direction c)"
    and "wall_dist shape dimension direction (step dimension direction c)
         < wall_dist shape dimension direction c"
    and "step dimension direction c \<noteq> c"
proof -
  have l: "length c = length shape" and
    b: "0 \<le> c ! dimension" "c ! dimension < int (shape ! dimension)"
    using assms(1,2) by (auto simp: in_shape_iff)
  show "in_shape shape (step dimension direction c)"
    using assms b unfolding in_shape_iff step_def at_wall_def
    by (auto simp: nth_list_update)
  show "wall_dist shape dimension direction (step dimension direction c)
         < wall_dist shape dimension direction c"
    using assms b l unfolding step_def at_wall_def wall_dist_def
    by (auto simp: nth_list_update)
  have "step dimension direction c ! dimension \<noteq> c ! dimension"
    using assms l unfolding step_def by auto
  then show "step dimension direction c \<noteq> c" by auto
qed

lemma move_tile_regular:
  assumes "regular shape t" "in_shape shape c" "dimension < length shape"
    "direction = -1 \<or> direction = 1"
  shows "move_tile shape dimension direction (t, b) c =
     (if at_wall shape dimension direction c \<or> tile_at t c = 0
         \<or> step dimension direction c \<in> set b
      then Inr (0, t, b)
      else if tile_at t (step dimension direction c) = tile_at t c
      then Inr (1, upd (upd t (step dimension direction c) (tile_at t c * 2)) c 0,
                b @ [step dimension direction c])
      else if tile_at t (step dimension direction c) = 0
      then (case move_tile shape dimension direction
                   (upd (upd t (step dimension direction c) (tile_at t c)) c 0, b)
                   (step dimension direction c) of
              Inl e \<Rightarrow> Inl e
            | Inr (s, t3, b3) \<Rightarrow> Inr (1 + s, t3, b3))
      else Inr (0, t, b))"
proof -
  have ne: "shape \<noteq> []" using assms(3) by auto
  have l: "length c = length shape" using assms(2) by (simp add: in_shape_iff)
  note g = get_tile_regular[OF assms(1,2)]
  show ?thesis
  proof (cases "at_wall shape dimension direction c")
    case True
    then show ?thesis using l assms(3)
      by (subst move_tile.simps) (simp add: at_wall_def)
  next
    case False
    note s = in_shape_step[OF assms(2,3,4) False]
    note gs = get_tile_regular[OF assms(1) s(1)]
    note u1 = set_tile_regular[OF assms(1) s(1) ne]
    note u2 = set_tile_regular[OF u1(2) assms(2) ne]
    have w: "c ! dimension \<noteq> (if direction = -1 then 0 else int (shape ! dimension) - 1)"
      using False by (simp add: at_wall_def)
    show ?thesis
      apply (subst move_tile.simps)
      using False w l assms(3)
      apply (simp only: g gs u1(1) u2(1) step_def[symmetric] sum.case if_False if_True
          double.simps tiles.inject not_le not_less simp_thms linorder_not_le)
      apply (auto simp: )
      done
  qed
qed


lemma move_tile_rule:
  assumes reg: "regular shape t" and c: "in_shape shape c"
    and d: "dimension < length shape" and dir: "direction = -1 \<or> direction = 1"
    and stay: "\<And>t c. \<lbrakk>regular shape t; in_shape shape c;
        at_wall shape dimension direction c \<or> tile_at t c = 0
        \<or> step dimension direction c \<in> set b
        \<or> (tile_at t (step dimension direction c) \<noteq> tile_at t c
           \<and> tile_at t (step dimension direction c) \<noteq> 0)\<rbrakk>
       \<Longrightarrow> Q t c (0, t, b)"
    and merge: "\<And>t c. \<lbrakk>regular shape t; in_shape shape c;
        \<not> at_wall shape dimension direction c;
        in_shape shape (step dimension direction c);
        tile_at t c \<noteq> 0; step dimension direction c \<notin> set b;
        tile_at t (step dimension direction c) = tile_at t c\<rbrakk>
       \<Longrightarrow> Q t c (1, upd (upd t (step dimension direction c) (tile_at t c * 2)) c 0,
                   b @ [step dimension direction c])"
    and slide: "\<And>t c s t3 b3. \<lbrakk>regular shape t; in_shape shape c;
        \<not> at_wall shape dimension direction c;
        in_shape shape (step dimension direction c);
        tile_at t c \<noteq> 0; step dimension direction c \<notin> set b;
        tile_at t (step dimension direction c) = 0;
        Q (upd (upd t (step dimension direction c) (tile_at t c)) c 0)
          (step dimension direction c) (s, t3, b3)\<rbrakk>
       \<Longrightarrow> Q t c (1 + s, t3, b3)"
  shows "\<exists>r. move_tile shape dimension direction (t, b) c = Inr r \<and> Q t c r"
  using reg c
proof (induction "wall_dist shape dimension direction c" arbitrary: t c rule: less_induct)
  case less
  note eq = move_tile_regular[OF less.prems d dir, of b]
  let ?tc = "step dimension direction c"
  have ne: "shape \<noteq> []" using d by auto
  consider
    (stay) "at_wall shape dimension direction c \<or> tile_at t c = 0 \<or> ?tc \<in> set b
        \<or> (tile_at t ?tc \<noteq> tile_at t c \<and> tile_at t ?tc \<noteq> 0)"
  | (merge) "\<not> at_wall shape dimension direction c" "tile_at t c \<noteq> 0" "?tc \<notin> set b"
        "tile_at t ?tc = tile_at t c"
  | (slide) "\<not> at_wall shape dimension direction c" "tile_at t c \<noteq> 0" "?tc \<notin> set b"
        "tile_at t ?tc \<noteq> tile_at t c" "tile_at t ?tc = 0"
    by blast
  then show ?case
  proof cases
    case stay
    then have "move_tile shape dimension direction (t, b) c = Inr (0, t, b)"
      unfolding eq by auto
    with assms(5)[OF less.prems stay] show ?thesis by simp
  next
    case merge
    note s = in_shape_step[OF less.prems(2) d dir merge(1)]
    have "move_tile shape dimension direction (t, b) c =
        Inr (1, upd (upd t ?tc (tile_at t c * 2)) c 0, b @ [?tc])"
      unfolding eq using merge by simp
    with assms(6)[OF less.prems merge(1) s(1) merge(2,3,4)] show ?thesis by simp
  next
    case slide
    note s = in_shape_step[OF less.prems(2) d dir slide(1)]
    note u1 = set_tile_regular[OF less.prems(1) s(1) ne]
    note u2 = set_tile_regular[OF u1(2) less.prems(2) ne]
    from less.hyps[OF s(2) u2(2) s(1)] obtain r where
      r: "move_tile shape dimension direction
            (upd (upd t ?tc (tile_at t c)) c 0, b) ?tc = Inr r"
      and q: "Q (upd (upd t ?tc (tile_at t c)) c 0) ?tc r" by blast
    obtain s' t3 b3 where r3: "r = (s', t3, b3)" by (cases r) auto
    have "move_tile shape dimension direction (t, b) c = Inr (1 + s', t3, b3)"
      unfolding eq using slide r r3 by simp
    with assms(7)[OF less.prems slide(1) s(1) slide(2,3,5) q[unfolded r3]]
    show ?thesis by simp
  qed
qed

lemma move_loop_rule:
  assumes "regular shape t" "\<forall>c\<in>set cs. in_shape shape c"
    and d: "dimension < length shape" and dir: "direction = -1 \<or> direction = 1"
    and "I (steps, t, b)"
    and stp: "\<And>c s t b s' t' b'. \<lbrakk>c \<in> set cs; in_shape shape c; regular shape t;
        I (s, t, b); move_tile shape dimension direction (t, b) c = Inr (s', t', b');
        regular shape t'\<rbrakk> \<Longrightarrow> I (s + s', t', b')"
  shows "\<exists>s' t' b'. move_loop shape dimension direction cs (steps, t, b) = Inr (s', t', b')
           \<and> I (s', t', b') \<and> regular shape t'"
  using assms(1,2,5,6)
proof (induction cs arbitrary: steps t b)
  case Nil
  then show ?case by simp
next
  case (Cons c cs)
  have c: "in_shape shape c" using Cons.prems(2) by simp
  have "\<exists>r. move_tile shape dimension direction (t, b) c = Inr r
          \<and> regular shape (fst (snd r))"
    by (rule move_tile_rule[OF Cons.prems(1) c d dir])
      (use d in \<open>auto intro!: set_tile_regular(2)\<close>)
  then obtain s' t' b' where
    m: "move_tile shape dimension direction (t, b) c = Inr (s', t', b')"
    and r': "regular shape t'" by auto
  have i': "I (steps + s', t', b')"
    by (rule Cons.prems(4)[OF _ c Cons.prems(1,3) m r']) simp
  have "\<exists>s'' t'' b''. move_loop shape dimension direction cs (steps + s', t', b')
           = Inr (s'', t'', b'') \<and> I (s'', t'', b'') \<and> regular shape t''"
    using Cons.prems(2) by (intro Cons.IH[OF r' _ i']) (auto intro: Cons.prems(4))
  then show ?case using m by simp
qed

lemma fill_coordinates_in_shape:
  assumes "\<forall>(k, n)\<in>set es. k < length shape \<and> shape ! k = n \<and> 0 < n"
    "\<forall>c\<in>set cs. in_shape shape c"
  shows "\<exists>cs'. fill_coordinates dimension direction es fraction cs = Inr cs'
           \<and> (\<forall>c\<in>set cs'. in_shape shape c)"
  using assms
proof (induction es arbitrary: fraction cs)
  case Nil
  then show ?case by simp
next
  case (Cons e es)
  obtain k n where e: "e = (k, n)" by (cases e) auto
  from Cons.prems(1) e have k: "k < length shape" "shape ! k = n" "0 < n" by auto
  let ?cs = "map (\<lambda>(index_coordinate, coordinate).
                  coordinate[k :=
                    (if direction = -1 \<or> dimension \<noteq> k
                     then int (index_coordinate div (fraction div n) mod n)
                     else int n - 1 - int (index_coordinate div (fraction div n) mod n))])
             (enumerate 0 cs)"
  have "\<forall>c\<in>set ?cs. in_shape shape c"
  proof
    fix c assume "c \<in> set ?cs"
    then obtain p where p: "p \<in> set (enumerate 0 cs)" and
      cp: "c = (\<lambda>(index_coordinate, coordinate).
                  coordinate[k :=
                    (if direction = -1 \<or> dimension \<noteq> k
                     then int (index_coordinate div (fraction div n) mod n)
                     else int n - 1 - int (index_coordinate div (fraction div n) mod n))]) p"
      by auto
    obtain i c0 where pi: "p = (i, c0)" by (cases p) auto
    have c0: "c0 \<in> set cs" using p pi by (auto simp: in_set_enumerate_eq)
    have
      cc: "c = c0[k := (if direction = -1 \<or> dimension \<noteq> k
                     then int (i div (fraction div n) mod n)
                     else int n - 1 - int (i div (fraction div n) mod n))]"
      using cp pi by simp
    have "in_shape shape c0" using Cons.prems(2) c0 by simp
    moreover have "i div (fraction div n) mod n < n" using k(3) by simp
    ultimately show "in_shape shape c" using k unfolding cc in_shape_iff
      by (auto simp: nth_list_update)
  qed
  from Cons.IH[OF _ this, of "fraction div n"] Cons.prems(1)
  show ?case using k(3) by (simp add: e)
qed

lemma generate_sequential_coordinates_in_shape:
  assumes "list_all (\<lambda>n. 0 < n) shape"
  shows "\<exists>cs. generate_sequential_coordinates shape dimension direction = Inr cs
           \<and> (\<forall>c\<in>set cs. in_shape shape c)"
  unfolding generate_sequential_coordinates_def
proof (rule fill_coordinates_in_shape)
  show "\<forall>(k, n)\<in>set (enumerate 0 shape). k < length shape \<and> shape ! k = n \<and> 0 < n"
    using assms by (auto simp: in_set_enumerate_eq list_all_length)
  show "\<forall>c\<in>set (replicate (tile_count shape) (replicate (length shape) 0)). in_shape shape c"
    using assms by (auto simp: in_shape_iff list_all_length)
qed

subsection \<open>Facts about place\<close>

lemma location_in_shape_Some:
  "length location = length shape \<Longrightarrow>
   location_in_shape (zip location shape) = Some loc
   \<longleftrightarrow> location = map PInt loc \<and> in_shape shape loc"
proof (induction location arbitrary: shape loc)
  case Nil
  then show ?case by auto
next
  case (Cons x location)
  then obtain n shape' where sh: "shape = n # shape'" and l: "length location = length shape'"
    by (cases shape) auto
  show ?case
  proof (cases x)
    case (PInt v)
    show ?thesis using Cons.IH[OF l] unfolding sh PInt
      by (auto simp: in_shape_Cons)
  qed (auto simp: sh in_shape_Cons)
qed

lemma place_in_shape:
  assumes "in_shape (get_shape b) loc"
  shows "place b (map PInt loc) r =
     (case get_tile (get_tiles b) loc of
        Inl e \<Rightarrow> Inl e
      | Inr t \<Rightarrow>
          if t = Tile 0 then
            (case set_tile (get_tiles b) loc (Tile (if r < 9 then 2 else 4)) of
               Inl e \<Rightarrow> Inl e
             | Inr t' \<Rightarrow> Inr (True, b\<lparr>get_tiles := t'\<rparr>))
          else Inr (False, b))"
proof -
  have l: "length (map PInt loc) = length (get_shape b)"
    using assms by (simp add: in_shape_iff)
  have "location_in_shape (zip (map PInt loc) (get_shape b)) = Some loc"
    using location_in_shape_Some[OF l] assms by simp
  then show ?thesis using l by (simp add: place_def)
qed

lemma place_out_of_bounds:
  assumes "k < length location"
    "\<forall>v. location ! k = PInt v \<longrightarrow> \<not> (0 \<le> v \<and> v < int (get_shape b ! k))"
  shows "place b location r = Inr (False, b)"
proof (cases "length location = length (get_shape b)")
  case True
  have "location_in_shape (zip location (get_shape b)) = None"
  proof (rule ccontr)
    assume "location_in_shape (zip location (get_shape b)) \<noteq> None"
    then obtain loc where "location_in_shape (zip location (get_shape b)) = Some loc" by auto
    then have "location = map PInt loc" "in_shape (get_shape b) loc"
      using location_in_shape_Some[OF True] by auto
    then show False using assms True by (auto simp: in_shape_iff)
  qed
  then show ?thesis using True by (simp add: place_def)
next
  case False
  then show ?thesis by (simp add: place_def)
qed

subsection \<open>Sums over the cells of a board\<close>

text \<open>
  The total of a board is the depth-first sum of its leaves. A valid board is what
  \<open>__init__\<close> builds: at least one dimension, no dimension of length zero, regular
  tiles. \<open>coords\<close> is the set of the coordinates of a shape; the total is the sum of
  \<open>tile_at\<close> over it.
\<close>

fun sum_tiles :: "tiles \<Rightarrow> int" where
  "sum_tiles (Tile v) = v"
| "sum_tiles (Nested ts) = sum_list (map sum_tiles ts)"

definition valid_board :: "board \<Rightarrow> bool" where
  "valid_board b \<longleftrightarrow>
     get_shape b \<noteq> [] \<and> list_all (\<lambda>n. 0 < n) (get_shape b)
     \<and> regular (get_shape b) (get_tiles b)"

definition coords :: "nat list \<Rightarrow> int list set" where
  "coords shape = {c. in_shape shape c}"

lemma coords_Nil: "coords [] = {[]}"
  by (auto simp: coords_def)

lemma coords_Cons:
  "coords (n # shape) = (\<lambda>(k, c). int k # c) ` ({..<n} \<times> coords shape)"
proof (rule set_eqI)
  fix c
  show "c \<in> coords (n # shape) \<longleftrightarrow> c \<in> (\<lambda>(k, c). int k # c) ` ({..<n} \<times> coords shape)"
  proof
    assume "c \<in> coords (n # shape)"
    then obtain i c' where c: "c = i # c'" "0 \<le> i" "i < int n" "in_shape shape c'"
      by (auto simp: coords_def in_shape_Cons)
    then have "(nat i, c') \<in> {..<n} \<times> coords shape" "c = (\<lambda>(k, c). int k # c) (nat i, c')"
      by (auto simp: coords_def)
    then show "c \<in> (\<lambda>(k, c). int k # c) ` ({..<n} \<times> coords shape)" by blast
  next
    assume "c \<in> (\<lambda>(k, c). int k # c) ` ({..<n} \<times> coords shape)"
    then show "c \<in> coords (n # shape)" by (auto simp: coords_def in_shape_Cons)
  qed
qed

lemma finite_coords: "finite (coords shape)"
  by (induction shape) (simp_all add: coords_Nil coords_Cons)

lemma sum_tiles_coords:
  "regular shape t \<Longrightarrow> sum_tiles t = (\<Sum>c\<in>coords shape. tile_at t c)"
proof (induction shape arbitrary: t)
  case Nil
  then show ?case by (cases t) (auto simp: coords_Nil tile_at_def)
next
  case (Cons n shape)
  from Cons.prems obtain ts where t: "t = Nested ts" and len: "length ts = n"
    and all: "list_all (regular shape) ts" by (cases t) auto
  have inj: "inj_on (\<lambda>(k, c). int k # c) ({..<n} \<times> coords shape)"
    by (auto simp: inj_on_def)
  have a: "tile_at (Nested ts) (int k # c) = tile_at (ts ! k) c" if "k < n" for k c
    using that len by (simp add: tile_at_def py_index_in)
  have "sum_tiles t = (\<Sum>k<n. sum_tiles (ts ! k))"
    using len by (simp add: t sum_list_sum_nth atLeast0LessThan comp_def)
  also have "\<dots> = (\<Sum>k<n. \<Sum>c\<in>coords shape. tile_at (ts ! k) c)"
    using all len Cons.IH by (intro sum.cong) (auto simp: list_all_length)
  also have "\<dots> = (\<Sum>(k, c)\<in>{..<n} \<times> coords shape. tile_at (ts ! k) c)"
    by (simp add: sum.cartesian_product)
  also have "\<dots> = (\<Sum>(k, c)\<in>{..<n} \<times> coords shape. tile_at t (int k # c))"
    by (intro sum.cong) (auto simp: t a)
  also have "\<dots> = (\<Sum>c\<in>coords (n # shape). tile_at t c)"
    unfolding coords_Cons by (simp add: sum.reindex[OF inj[unfolded case_prod_unfold]] case_prod_unfold comp_def)
  finally show ?case .
qed

lemma sum_change2:
  fixes f g :: "'a \<Rightarrow> int"
  assumes "finite S" "a \<in> S" "b \<in> S" "a \<noteq> b"
    "\<And>x. x \<in> S \<Longrightarrow> x \<noteq> a \<Longrightarrow> x \<noteq> b \<Longrightarrow> g x = f x"
  shows "sum g S = sum f S - f a - f b + g a + g b"
proof -
  have fS: "sum f S = f a + f b + sum f (S - {a} - {b})"
    using assms(1-4) by (simp add: sum.remove[where x = a] sum.remove[where x = b])
  have gS: "sum g S = g a + g b + sum g (S - {a} - {b})"
    using assms(1-4) by (simp add: sum.remove[where x = a] sum.remove[where x = b])
  have "sum g (S - {a} - {b}) = sum f (S - {a} - {b})"
    by (rule sum.cong) (auto intro: assms(5))
  with fS gS show ?thesis by simp
qed

lemma sum_change1:
  fixes f g :: "'a \<Rightarrow> int"
  assumes "finite S" "a \<in> S" "\<And>x. x \<in> S \<Longrightarrow> x \<noteq> a \<Longrightarrow> g x = f x"
  shows "sum g S = sum f S - f a + g a"
proof -
  have "sum g (S - {a}) = sum f (S - {a})"
    by (rule sum.cong) (auto intro: assms(3))
  then show ?thesis using assms(1,2)
    by (simp add: sum.remove[where x = a])
qed

lemma tile_at_upd2:
  assumes "regular shape t" "in_shape shape c" "in_shape shape tc" "shape \<noteq> []"
    "in_shape shape c'"
  shows "tile_at (upd (upd t tc x) c y) c'
         = (if c' = c then y else if c' = tc then x else tile_at t c')"
proof -
  note u1 = set_tile_regular[OF assms(1,3,4)]
  note u2 = set_tile_regular[OF u1(2) assms(2,4)]
  show ?thesis using u2(3)[OF assms(5)] u1(3)[OF assms(5)] by simp
qed

lemma regular_upd2:
  assumes "regular shape t" "in_shape shape c" "in_shape shape tc" "shape \<noteq> []"
  shows "regular shape (upd (upd t tc x) c y)"
  using set_tile_regular(2)[OF set_tile_regular(2)[OF assms(1,3,4)] assms(2,4)] .

lemma csum_upd2:
  fixes h :: "int list \<Rightarrow> int \<Rightarrow> int"
  assumes "regular shape t" "in_shape shape c" "in_shape shape tc" "shape \<noteq> []" "tc \<noteq> c"
  shows "(\<Sum>c'\<in>coords shape. h c' (tile_at (upd (upd t tc x) c y) c'))
         = (\<Sum>c'\<in>coords shape. h c' (tile_at t c'))
           - h c (tile_at t c) - h tc (tile_at t tc) + h c y + h tc x"
proof -
  have m: "c \<in> coords shape" "tc \<in> coords shape" using assms(2,3) by (simp_all add: coords_def)
  have e: "tile_at (upd (upd t tc x) c y) c'
         = (if c' = c then y else if c' = tc then x else tile_at t c')"
    if "c' \<in> coords shape" for c'
    using tile_at_upd2[OF assms(1-4)] that by (simp add: coords_def)
  have "(\<Sum>c'\<in>coords shape. h c' (tile_at (upd (upd t tc x) c y) c'))
      = (\<Sum>c'\<in>coords shape. h c' (tile_at t c'))
        - h c (tile_at t c) - h tc (tile_at t tc)
        + h c (tile_at (upd (upd t tc x) c y) c) + h tc (tile_at (upd (upd t tc x) c y) tc)"
    using assms(5) by (intro sum_change2[OF finite_coords m]) (auto simp: e)
  then show ?thesis using assms(5) by (simp add: e m)
qed

lemma move_tile_sum:
  assumes "regular shape t" "in_shape shape c" "dimension < length shape"
    "direction = -1 \<or> direction = 1"
  shows "\<exists>s t' b'. move_tile shape dimension direction (t, b) c = Inr (s, t', b')
           \<and> regular shape t' \<and> sum_tiles t' = sum_tiles t"
proof -
  have ne: "shape \<noteq> []" using assms(3) by auto
  have "\<exists>r. move_tile shape dimension direction (t, b) c = Inr r
          \<and> (regular shape (fst (snd r)) \<and> sum_tiles (fst (snd r)) = sum_tiles t)"
  proof (rule move_tile_rule[OF assms, where Q = "\<lambda>t c r. regular shape (fst (snd r))
          \<and> sum_tiles (fst (snd r)) = sum_tiles t"], goal_cases)
    case (1 t c)
    then show ?case by simp
  next
    case (2 t c)
    let ?tc = "step dimension direction c"
    have n: "?tc \<noteq> c" using in_shape_step(3)[OF 2(2) assms(3,4) 2(3)] .
    note r = regular_upd2[OF 2(1,2,4) ne]
    from csum_upd2[OF 2(1,2,4) ne n, of "\<lambda>_ v. v" "tile_at t c * 2" 0]
    show ?case using 2(7) r by (simp add: sum_tiles_coords[OF r] sum_tiles_coords[OF 2(1)])
  next
    case (3 t c s t3 b3)
    let ?tc = "step dimension direction c"
    have n: "?tc \<noteq> c" using in_shape_step(3)[OF 3(2) assms(3,4) 3(3)] .
    note r = regular_upd2[OF 3(1,2,4) ne]
    from csum_upd2[OF 3(1,2,4) ne n, of "\<lambda>_ v. v" "tile_at t c" 0]
    show ?case using 3(7,8) r by (simp add: sum_tiles_coords[OF r] sum_tiles_coords[OF 3(1)])
  qed
  then show ?thesis by auto
qed

lemma move_run_valid:
  assumes "valid_board b" "0 \<le> dimension" "dimension < int (length (get_shape b))"
    "direction = -1 \<or> direction = 1"
    and "I (0, get_tiles b, [])"
    and "\<And>c s t bl s' t' bl'. \<lbrakk>in_shape (get_shape b) c; regular (get_shape b) t;
        I (s, t, bl);
        move_tile (get_shape b) (nat dimension) direction (t, bl) c = Inr (s', t', bl');
        regular (get_shape b) t'\<rbrakk> \<Longrightarrow> I (s + s', t', bl')"
  shows "\<exists>s t bl. move_run b dimension direction = Inr (Some (s, t, bl))
           \<and> I (s, t, bl) \<and> regular (get_shape b) t"
proof -
  have v: "get_shape b \<noteq> []" "list_all (\<lambda>n. 0 < n) (get_shape b)"
    "regular (get_shape b) (get_tiles b)" using assms(1) by (simp_all add: valid_board_def)
  have d: "nat dimension < length (get_shape b)" using assms(2,3) by simp
  from generate_sequential_coordinates_in_shape[OF v(2), of "nat dimension" direction]
  obtain cs where cs: "generate_sequential_coordinates (get_shape b) (nat dimension) direction
      = Inr cs" "\<forall>c\<in>set cs. in_shape (get_shape b) c" by blast
  have "\<exists>s' t' b'. move_loop (get_shape b) (nat dimension) direction cs (0, get_tiles b, [])
           = Inr (s', t', b') \<and> I (s', t', b') \<and> regular (get_shape b) t'"
    by (rule move_loop_rule[where I = I, OF v(3) cs(2) d assms(4,5)]) (rule assms(6))
  then show ?thesis using cs(1) assms(2,3,4) by (auto simp: move_run_def)
qed

lemma move_valid_sum:
  assumes "valid_board b"
  shows "\<exists>changed b'. move b dimension direction = Inr (changed, b')
           \<and> valid_board b' \<and> get_shape b' = get_shape b
           \<and> sum_tiles (get_tiles b') = sum_tiles (get_tiles b)"
proof (cases "0 \<le> dimension \<and> dimension < int (length (get_shape b))
      \<and> (direction = -1 \<or> direction = 1)")
  case True
  have d: "nat dimension < length (get_shape b)" using True by (simp add: nat_less_iff)
  have "\<exists>s t bl. move_run b dimension direction = Inr (Some (s, t, bl))
           \<and> sum_tiles t = sum_tiles (get_tiles b) \<and> regular (get_shape b) t"
  proof -
    have "\<exists>s t bl. move_run b dimension direction = Inr (Some (s, t, bl))
           \<and> (\<lambda>(s, t, bl). sum_tiles t = sum_tiles (get_tiles b)) (s, t, bl)
           \<and> regular (get_shape b) t"
    proof (rule move_run_valid[OF assms], goal_cases)
      case (5 c s t bl s' t' bl')
      from move_tile_sum[OF 5(2,1) d, of direction bl] True 5(3,4) show ?case by auto
    qed (use True in auto)
    then show ?thesis by simp
  qed
  then show ?thesis using assms by (auto simp: move_def valid_board_def)
next
  case False
  then have "move_run b dimension direction = Inr None" by (auto simp: move_run_def)
  then have "move b dimension direction = Inr (False, b)" by (simp add: move_def)
  then show ?thesis using assms by blast
qed

lemma sum_tiles_upd:
  assumes "regular shape t" "in_shape shape c" "shape \<noteq> []"
  shows "sum_tiles (upd t c v) = sum_tiles t - tile_at t c + v"
proof -
  note u = set_tile_regular[OF assms]
  have m: "c \<in> coords shape" using assms(2) by (simp add: coords_def)
  have "(\<Sum>c'\<in>coords shape. tile_at (upd t c v) c')
      = (\<Sum>c'\<in>coords shape. tile_at t c') - tile_at t c + tile_at (upd t c v) c"
    by (rule sum_change1[OF finite_coords m]) (simp add: u(3) coords_def)
  then show ?thesis
    using u(3)[OF assms(2)] by (simp add: sum_tiles_coords[OF u(2)] sum_tiles_coords[OF assms(1)])
qed

lemma place_valid:
  assumes "valid_board b"
  shows "\<exists>placed b'. place b location r = Inr (placed, b')
     \<and> valid_board b' \<and> get_shape b' = get_shape b
     \<and> (if placed
         then sum_tiles (get_tiles b') = sum_tiles (get_tiles b) + 2
              \<or> sum_tiles (get_tiles b') = sum_tiles (get_tiles b) + 4
         else b' = b)"
proof -
  have v: "get_shape b \<noteq> []" "list_all (\<lambda>n. 0 < n) (get_shape b)"
    "regular (get_shape b) (get_tiles b)" using assms by (simp_all add: valid_board_def)
  have triv: ?thesis if "place b location r = Inr (False, b)"
    by (rule exI[of _ False], rule exI[of _ b]) (use that assms in simp)
  consider (len) "length location \<noteq> length (get_shape b)"
    | (bad) "length location = length (get_shape b)"
        "location_in_shape (zip location (get_shape b)) = None"
    | (ok) loc where "length location = length (get_shape b)"
        "location_in_shape (zip location (get_shape b)) = Some loc"
    by (cases "location_in_shape (zip location (get_shape b))") auto
  then show ?thesis
  proof cases
    case len
    then have "place b location r = Inr (False, b)" by (simp add: place_def)
    then show ?thesis by (rule triv)
  next
    case bad
    then have "place b location r = Inr (False, b)" by (simp add: place_def)
    then show ?thesis by (rule triv)
  next
    case ok
    then have l: "location = map PInt loc" and i: "in_shape (get_shape b) loc"
      using location_in_shape_Some by auto
    note g = get_tile_regular[OF v(3) i]
    show ?thesis
    proof (cases "tile_at (get_tiles b) loc = 0")
      case True
      let ?n = "if r < 9 then 2 else 4 :: int"
      note u = set_tile_regular[OF v(3) i v(1), where v = ?n]
      have p: "place b location r = Inr (True, b\<lparr>get_tiles := upd (get_tiles b) loc ?n\<rparr>)"
        unfolding l place_in_shape[OF i] g using True u(1) by simp
      have "sum_tiles (upd (get_tiles b) loc ?n) = sum_tiles (get_tiles b) + ?n"
        using sum_tiles_upd[OF v(3) i v(1), where v = ?n] True by simp
      then show ?thesis using p u(2) v
        by (intro exI[of _ True] exI[of _ "b\<lparr>get_tiles := upd (get_tiles b) loc ?n\<rparr>"])
           (auto simp: valid_board_def)
    next
      case False
      have "place b location r = Inr (False, b)"
        unfolding l place_in_shape[OF i] g using False by simp
      then show ?thesis by (rule triv)
    qed
  qed
qed

text \<open>
  A potential for \<open>move\<close>: the distances to the wall of the cells that hold a tile,
  added up. A merge and a relocation each lower it by at least one.
\<close>

definition pot :: "nat list \<Rightarrow> nat \<Rightarrow> int \<Rightarrow> tiles \<Rightarrow> int" where
  "pot shape dimension direction t =
     (\<Sum>c\<in>coords shape.
        if tile_at t c \<noteq> 0 then int (wall_dist shape dimension direction c) else 0)"

lemma move_tile_pot:
  assumes "regular shape t" "in_shape shape c" "dimension < length shape"
    "direction = -1 \<or> direction = 1"
  shows "\<exists>s t' b'. move_tile shape dimension direction (t, b) c = Inr (s, t', b')
           \<and> pot shape dimension direction t' + int s \<le> pot shape dimension direction t
           \<and> (s = 0 \<longrightarrow> t' = t)"
proof -
  have ne: "shape \<noteq> []" using assms(3) by auto
  let ?h = "\<lambda>c v. if v \<noteq> (0::int) then int (wall_dist shape dimension direction c) else 0"
  have "\<exists>r. move_tile shape dimension direction (t, b) c = Inr r
          \<and> (pot shape dimension direction (fst (snd r)) + int (fst r)
                \<le> pot shape dimension direction t
              \<and> (fst r = 0 \<longrightarrow> fst (snd r) = t))"
  proof (rule move_tile_rule[OF assms, where Q = "\<lambda>t c r.
          pot shape dimension direction (fst (snd r)) + int (fst r)
                \<le> pot shape dimension direction t
              \<and> (fst r = 0 \<longrightarrow> fst (snd r) = t)"], goal_cases)
    case (1 t c)
    then show ?case by simp
  next
    case (2 t c)
    let ?tc = "step dimension direction c"
    note st = in_shape_step[OF 2(2) assms(3,4) 2(3)]
    from csum_upd2[OF 2(1,2,4) ne st(3), of ?h "tile_at t c * 2" 0]
    show ?case using 2(5,7) st(2) by (simp add: pot_def)
  next
    case (3 t c s t3 b3)
    let ?tc = "step dimension direction c"
    note st = in_shape_step[OF 3(2) assms(3,4) 3(3)]
    from csum_upd2[OF 3(1,2,4) ne st(3), of ?h "tile_at t c" 0]
    show ?case using 3(5,7,8) st(2) by (simp add: pot_def)
  qed
  then show ?thesis by auto
qed

subsection \<open>Lines\<close>

text \<open>
  The line of a coordinate along the moved dimension: the cells that differ from it at
  that dimension only. \<open>line_values\<close> lists the values of a line from the wall the move
  goes to outwards, so a tile moves towards the head of the list.
  \<open>no_reachable_empty\<close>: no empty cell lies between a tile and the wall (the tiles
  are packed against the wall). \<open>no_equal_neighbours\<close>: no two neighbouring cells hold
  the same tile.
\<close>

definition line_cell :: "nat list \<Rightarrow> nat \<Rightarrow> int \<Rightarrow> int list \<Rightarrow> nat \<Rightarrow> int list" where
  "line_cell shape dimension direction c0 k =
     c0[dimension := (if direction = -1 then int k else int (shape ! dimension) - 1 - int k)]"

definition line_values :: "nat list \<Rightarrow> nat \<Rightarrow> int \<Rightarrow> tiles \<Rightarrow> int list \<Rightarrow> int list" where
  "line_values shape dimension direction t c0 =
     map (\<lambda>k. tile_at t (line_cell shape dimension direction c0 k)) [0..<shape ! dimension]"

fun no_reachable_empty :: "int list \<Rightarrow> bool" where
  "no_reachable_empty [] = True"
| "no_reachable_empty (x # xs) =
     (if x = 0 then list_all (\<lambda>y. y = 0) xs else no_reachable_empty xs)"

fun no_equal_neighbours :: "int list \<Rightarrow> bool" where
  "no_equal_neighbours (x # y # xs) = ((x = 0 \<or> x \<noteq> y) \<and> no_equal_neighbours (y # xs))"
| "no_equal_neighbours _ = True"

definition same_line :: "nat \<Rightarrow> int list \<Rightarrow> int list \<Rightarrow> bool" where
  "same_line dimension c c' \<longleftrightarrow> c[dimension := 0] = c'[dimension := 0]"

lemma same_line_step [simp]:
  "same_line dimension (step dimension direction c) c' \<longleftrightarrow> same_line dimension c c'"
  by (simp add: same_line_def step_def)

lemma same_line_refl [simp]: "same_line dimension c c"
  by (simp add: same_line_def)

lemma same_line_step_self [simp]: "same_line dimension c (step dimension direction c)"
  by (simp add: same_line_def step_def)

lemma no_reachable_empty_nth:
  "no_reachable_empty xs \<Longrightarrow> Suc k < length xs \<Longrightarrow> xs ! Suc k \<noteq> 0 \<Longrightarrow> xs ! k \<noteq> 0"
proof (induction xs arbitrary: k)
  case Nil
  then show ?case by simp
next
  case (Cons x xs)
  show ?case
  proof (cases "x = 0")
    case True
    with Cons.prems have "list_all (\<lambda>y. y = 0) xs" by simp
    then have "xs ! k = 0" using Cons.prems(2) by (simp add: list_all_length)
    with Cons.prems(3) show ?thesis by simp
  next
    case False
    show ?thesis
    proof (cases k)
      case 0
      then show ?thesis using False by simp
    next
      case (Suc k')
      with Cons.prems False Cons.IH[of k'] show ?thesis by simp
    qed
  qed
qed

lemma no_equal_neighbours_nth:
  "no_equal_neighbours xs \<Longrightarrow> Suc k < length xs \<Longrightarrow> xs ! k = 0 \<or> xs ! k \<noteq> xs ! Suc k"
proof (induction xs arbitrary: k rule: no_equal_neighbours.induct)
  case (1 x y xs)
  show ?case
  proof (cases k)
    case 0
    then show ?thesis using "1.prems" by auto
  next
    case (Suc k')
    with "1.prems" "1.IH"[of k'] show ?thesis by simp
  qed
qed simp_all

lemma move_tile_frame:
  assumes "regular shape t" "in_shape shape c" "dimension < length shape"
    "direction = -1 \<or> direction = 1"
  shows "\<exists>s t' b'. move_tile shape dimension direction (t, b) c = Inr (s, t', b')
           \<and> (\<forall>c'. in_shape shape c' \<and> \<not> same_line dimension c c'
                 \<longrightarrow> tile_at t' c' = tile_at t c')"
proof -
  have ne: "shape \<noteq> []" using assms(3) by auto
  have "\<exists>r. move_tile shape dimension direction (t, b) c = Inr r
          \<and> (\<forall>c'. in_shape shape c' \<and> \<not> same_line dimension c c'
                 \<longrightarrow> tile_at (fst (snd r)) c' = tile_at t c')"
  proof (rule move_tile_rule[OF assms, where Q = "\<lambda>t c r.
          \<forall>c'. in_shape shape c' \<and> \<not> same_line dimension c c'
                 \<longrightarrow> tile_at (fst (snd r)) c' = tile_at t c'"], goal_cases)
    case (1 t c)
    then show ?case by simp
  next
    case (2 t c)
    show ?case
    proof (intro allI impI)
      fix c' assume a: "in_shape shape c' \<and> \<not> same_line dimension c c'"
      then have "c' \<noteq> c" "c' \<noteq> step dimension direction c" by auto
      then show "tile_at (fst (snd (1, upd (upd t (step dimension direction c)
              (tile_at t c * 2)) c 0, b @ [step dimension direction c]))) c' = tile_at t c'"
        using tile_at_upd2[OF 2(1,2,4) ne, of c'] a by simp
    qed
  next
    case (3 t c s t3 b3)
    show ?case
    proof (intro allI impI)
      fix c' assume a: "in_shape shape c' \<and> \<not> same_line dimension c c'"
      then have "c' \<noteq> c" "c' \<noteq> step dimension direction c" by auto
      then have "tile_at (upd (upd t (step dimension direction c) (tile_at t c)) c 0) c'
          = tile_at t c'"
        using tile_at_upd2[OF 3(1,2,4) ne, of c'] a by simp
      moreover have "tile_at t3 c'
          = tile_at (upd (upd t (step dimension direction c) (tile_at t c)) c 0) c'"
        using 3(8) a by simp
      ultimately show "tile_at (fst (snd (1 + s, t3, b3))) c' = tile_at t c'" by simp
    qed
  qed
  then show ?thesis by auto
qed

lemma same_line_cell:
  assumes "in_shape shape c" "in_shape shape c0" "same_line dimension c c0"
    "dimension < length shape" "direction = -1 \<or> direction = 1"
  shows "c = line_cell shape dimension direction c0 (wall_dist shape dimension direction c)"
    and "wall_dist shape dimension direction c < shape ! dimension"
proof -
  have l: "length c = length shape" "length c0 = length shape"
    and b: "0 \<le> c ! dimension" "c ! dimension < int (shape ! dimension)"
    using assms(1,2,4) by (auto simp: in_shape_iff)
  have "c = (c[dimension := 0])[dimension := c ! dimension]" by simp
  also have "\<dots> = c0[dimension := c ! dimension]"
    using assms(3) by (simp add: same_line_def)
  finally have e: "c = c0[dimension := c ! dimension]" .
  have "(if direction = -1 then int (wall_dist shape dimension direction c)
         else int (shape ! dimension) - 1 - int (wall_dist shape dimension direction c))
        = c ! dimension"
    using b assms(5) by (auto simp: wall_dist_def)
  then show "c = line_cell shape dimension direction c0 (wall_dist shape dimension direction c)"
    using e by (simp add: line_cell_def)
  show "wall_dist shape dimension direction c < shape ! dimension"
    using b assms(5) by (auto simp: wall_dist_def)
qed

lemma line_cell_in_shape:
  assumes "in_shape shape c0" "dimension < length shape" "k < shape ! dimension"
  shows "in_shape shape (line_cell shape dimension direction c0 k)"
    and "same_line dimension (line_cell shape dimension direction c0 k) c0"
  using assms unfolding in_shape_iff line_cell_def same_line_def
  by (auto simp: nth_list_update)


lemma wall_dist_step:
  assumes "in_shape shape c" "dimension < length shape" "direction = -1 \<or> direction = 1"
    "\<not> at_wall shape dimension direction c"
  shows "wall_dist shape dimension direction c
         = Suc (wall_dist shape dimension direction (step dimension direction c))"
proof -
  have l: "length c = length shape" and
    b: "0 \<le> c ! dimension" "c ! dimension < int (shape ! dimension)"
    using assms(1,2) by (auto simp: in_shape_iff)
  show ?thesis using assms b l unfolding step_def at_wall_def wall_dist_def
    by (auto simp: nth_list_update)
qed

lemma line_values_eqI:
  assumes "in_shape shape c0" "dimension < length shape"
    "\<forall>c. in_shape shape c \<and> same_line dimension c c0 \<longrightarrow> tile_at t c = tile_at t0 c"
  shows "line_values shape dimension direction t c0
         = line_values shape dimension direction t0 c0"
  unfolding line_values_def
  using assms line_cell_in_shape[OF assms(1,2)] by (intro map_cong) auto

lemma move_tile_stuck:
  assumes "regular shape t" "in_shape shape c" "dimension < length shape"
    "direction = -1 \<or> direction = 1" "in_shape shape c0" "same_line dimension c c0"
    "no_reachable_empty (line_values shape dimension direction t c0)"
    "no_equal_neighbours (line_values shape dimension direction t c0)"
  shows "move_tile shape dimension direction (t, b) c = Inr (0, t, b)"
proof (cases "at_wall shape dimension direction c \<or> tile_at t c = 0")
  case True
  then show ?thesis by (auto simp: move_tile_regular[OF assms(1-4)])
next
  case False
  let ?xs = "line_values shape dimension direction t c0"
  let ?tc = "step dimension direction c"
  let ?k = "wall_dist shape dimension direction ?tc"
  have nw: "\<not> at_wall shape dimension direction c" using False by simp
  note st = in_shape_step[OF assms(2,3,4) nw]
  have sl: "same_line dimension ?tc c0" using assms(6) by simp
  have wd: "wall_dist shape dimension direction c = Suc ?k"
    by (rule wall_dist_step[OF assms(2,3,4) nw])
  note c1 = same_line_cell[OF assms(2,5,6,3,4)]
  note c2 = same_line_cell[OF st(1) assms(5) sl assms(3,4)]
  have len: "length ?xs = shape ! dimension" by (simp add: line_values_def)
  have x1: "?xs ! Suc ?k = tile_at t c"
    using c1 wd by (simp add: line_values_def)
  have x2: "?xs ! ?k = tile_at t ?tc"
    using c2 by (simp add: line_values_def)
  have sk: "Suc ?k < length ?xs" using c1(2) wd len by simp
  have "?xs ! ?k \<noteq> 0"
    using no_reachable_empty_nth[OF assms(7) sk] x1 False by simp
  moreover have "?xs ! ?k = 0 \<or> ?xs ! ?k \<noteq> ?xs ! Suc ?k"
    by (rule no_equal_neighbours_nth[OF assms(8) sk])
  ultimately have "tile_at t ?tc \<noteq> 0" "tile_at t ?tc \<noteq> tile_at t c"
    using x1 x2 by auto
  then show ?thesis by (auto simp: move_tile_regular[OF assms(1-4)])
qed

subsection \<open>The order of the sequential coordinates\<close>











lemma same_line_sym: "same_line dimension c c' \<longleftrightarrow> same_line dimension c' c"
  by (auto simp: same_line_def)


lemma same_line_step2 [simp]:
  "same_line dimension c' (step dimension direction c) \<longleftrightarrow> same_line dimension c' c"
  using same_line_sym same_line_step by blast



subsection \<open>The merge-once invariant\<close>

text \<open>
  \<open>line_tiles\<close>: the tiles a line held when \<open>move\<close> was called. \<open>merge_once\<close>, the
  invariant of \<open>move\<close>: no coordinate is in \<open>blocked_coordinates\<close> twice; a cell in
  it holds twice a tile its line held at the call; every other cell is empty or holds a
  tile its line held at the call.
\<close>

definition line_tiles :: "nat list \<Rightarrow> nat \<Rightarrow> tiles \<Rightarrow> int list \<Rightarrow> int set" where
  "line_tiles shape dimension t0 c =
     {tile_at t0 c0 | c0. in_shape shape c0 \<and> same_line dimension c0 c \<and> tile_at t0 c0 \<noteq> 0}"


lemma line_tiles_step [simp]:
  "line_tiles shape dimension t0 (step dimension direction c) = line_tiles shape dimension t0 c"
  by (simp add: line_tiles_def)





section \<open>Round.get_score\<close>

text \<open>
  \<open>math.log(x, 2)\<close> is computed in floating point. Its result at the int \<open>x\<close> is
  the parameter \<open>pylog2\<close> of the model (a double is a real number), so nothing is
  assumed about its rounding; \<open>math.log\<close> raises on a negative argument. \<open>int()\<close>
  truncates towards zero. \<open>get_score_loop\<close> is the \<open>for\<close> loop over the elements
  of a list, \<open>score\<close> the accumulator passed along.
\<close>

definition py_trunc :: "real \<Rightarrow> int" where
  "py_trunc x = (if 0 \<le> x then \<lfloor>x\<rfloor> else \<lceil>x\<rceil>)"

fun get_score :: "(int \<Rightarrow> real) \<Rightarrow> tiles \<Rightarrow> int \<Rightarrow> error + int"
  and get_score_loop :: "(int \<Rightarrow> real) \<Rightarrow> tiles list \<Rightarrow> int \<Rightarrow> error + int" where
  "get_score pylog2 (Tile v) score = Inl TypeError"
| "get_score pylog2 (Nested ts) score = get_score_loop pylog2 ts score"
| "get_score_loop pylog2 [] score = Inr score"
| "get_score_loop pylog2 (Tile sub_tiles # rest) score =
     (if sub_tiles = 0 then get_score_loop pylog2 rest (score + 0)
      else if sub_tiles < 0 then Inl ValueError
      else get_score_loop pylog2 rest
             (score + sub_tiles * py_trunc (pylog2 sub_tiles - 1)))"
| "get_score_loop pylog2 (Nested ts # rest) score =
     (case get_score pylog2 (Nested ts) score of
        Inl e \<Rightarrow> Inl e
      | Inr score' \<Rightarrow> get_score_loop pylog2 rest score')"

text \<open>
  The leaves of the tiles, depth first; the score the code gives one tile; the score the
  specification's formula gives it, with an exact logarithm; and the tiles that are 0 or
  a power of two \<open>2^k\<close> (\<open>k \<ge> 0\<close>) at which the computed logarithm, less one and
  truncated, is \<open>k - 1\<close> (so it is for the doubles of CPython up to \<open>2^699\<close>).
\<close>

fun leaves :: "tiles \<Rightarrow> int list" where
  "leaves (Tile v) = [v]"
| "leaves (Nested ts) = concat (map leaves ts)"

definition tile_score :: "(int \<Rightarrow> real) \<Rightarrow> int \<Rightarrow> int" where
  "tile_score pylog2 T = (if T = 0 then 0 else T * py_trunc (pylog2 T - 1))"




lemma get_score_sum:
  "list_all (\<lambda>v. 0 \<le> v) (leaves t) \<Longrightarrow> t = Nested ts' \<Longrightarrow>
   get_score pylog2 t score = Inr (score + sum_list (map (tile_score pylog2) (leaves t)))"
  "list_all (\<lambda>v. 0 \<le> v) (concat (map leaves ts)) \<Longrightarrow>
   get_score_loop pylog2 ts score
     = Inr (score + sum_list (map (tile_score pylog2) (concat (map leaves ts))))"
proof (induction pylog2 t score and pylog2 ts score arbitrary: ts' rule: get_score_get_score_loop.induct)
  case (1 pylog2 v score)
  then show ?case by simp
next
  case (2 pylog2 ts score)
  then show ?case by simp
next
  case (3 pylog2 score)
  then show ?case by simp
next
  case (4 pylog2 sub_tiles rest score)
  then show ?case by (auto simp: tile_score_def)
next
  case (5 pylog2 ts rest score)
  then show ?case by (simp add: algebra_simps)
qed

lemma get_score_leaves:
  assumes "list_all (\<lambda>v. 0 \<le> v) (leaves (Nested ts))"
  shows "get_score pylog2 (Nested ts) 0
     = Inr (sum_list (map (tile_score pylog2) (leaves (Nested ts))))"
  using get_score_sum(1)[OF assms refl, of pylog2 0] by (simp only: add_0)



section \<open>Board.__init__ from a layout\<close>

text \<open>
  \<open>len(str(load_tiles))\<close>: the length of the text Python prints for the layout, the
  elements of a list separated by a comma and a space.
\<close>

fun digits10 :: "nat \<Rightarrow> nat" where
  "digits10 n = (if n < 10 then 1 else Suc (digits10 (n div 10)))"

declare digits10.simps [simp del]

definition int_str_len :: "int \<Rightarrow> nat" where
  "int_str_len v = (if v < 0 then Suc (digits10 (nat (- v))) else digits10 (nat v))"

fun str_len :: "pyval \<Rightarrow> nat" where
  "str_len (PInt v) = int_str_len v"
| "str_len (PBool b) = (if b then 4 else 5)"
| "str_len PNone = 4"
| "str_len (POther s) = length s"
| "str_len (PList xs) = 2 + sum_list (map str_len xs) + 2 * (length xs - 1)"

text \<open>
  \<open>validate_tiles\<close> and the \<open>for\<close> loop in it (\<open>validate_loop\<close>). The state
  \<open>depth, max_depth, dims_length\<close> is passed in and returned; \<open>dims_length\<close> maps a
  depth to the length every list at that depth must have; \<open>max_depth\<close> is -1 until
  the first int is met. \<open>log(sub_tiles,2)%1 != 0\<close> says the computed logarithm
  \<open>pylog2\<close> is not a whole number.
\<close>

fun validate_tiles ::
  "(int \<Rightarrow> real) \<Rightarrow> pyval list \<Rightarrow> int \<Rightarrow> int \<Rightarrow> (int \<rightharpoonup> nat) \<Rightarrow>
   error + (int \<times> int \<times> (int \<rightharpoonup> nat))"
  and validate_loop ::
  "(int \<Rightarrow> real) \<Rightarrow> pyval list \<Rightarrow> int \<Rightarrow> int \<Rightarrow> (int \<rightharpoonup> nat) \<Rightarrow>
   error + (int \<times> int \<times> (int \<rightharpoonup> nat))" where
  "validate_tiles pylog2 tiles depth max_depth dims_length =
     (case dims_length depth of
        None \<Rightarrow>
          validate_loop pylog2 tiles depth max_depth (dims_length(depth \<mapsto> length tiles))
      | Some n \<Rightarrow>
          if n \<noteq> length tiles then Inl (Exception ''Shape of load_tiles is not regular'')
          else validate_loop pylog2 tiles depth max_depth dims_length)"
| "validate_loop pylog2 [] depth max_depth dims_length =
     Inr (depth - 1, max_depth, dims_length)"
| "validate_loop pylog2 (PList sub_tiles # rest) depth max_depth dims_length =
     (if length sub_tiles > 0 then
        (case validate_tiles pylog2 sub_tiles (depth + 1) max_depth dims_length of
           Inl e \<Rightarrow> Inl e
         | Inr (depth', max_depth', dims_length') \<Rightarrow>
             validate_loop pylog2 rest depth' max_depth' dims_length')
      else Inl (Exception ''Empty tile is not allowed''))"
| "validate_loop pylog2 (PInt sub_tiles # rest) depth max_depth dims_length =
     (if (if max_depth = -1 then depth else max_depth) \<noteq> depth
        then Inl (Exception ''Shape of load_tiles is not regular'')
      else if sub_tiles < 0 \<or> (sub_tiles > 0 \<and> frac (pylog2 sub_tiles) \<noteq> 0)
        then Inl (Exception ''At least one tile in load_tiles is not an appropriate number'')
      else validate_loop pylog2 rest depth (if max_depth = -1 then depth else max_depth)
             dims_length)"
| "validate_loop pylog2 (_ # rest) depth max_depth dims_length =
     Inl (Exception ''load_tiles has something wrong'')"

text \<open>
  \<open>recursive_len\<close> reads the shape along the first elements. \<open>deepcopy\<close> gives the
  tiles of the board; only nested lists of ints have an image in \<open>tiles\<close>, and
  \<open>validate_tiles\<close> has raised for anything else, so the \<open>None\<close> branch of
  \<open>init_load\<close> is never taken.
\<close>

fun recursive_len :: "pyval list \<Rightarrow> error + nat list" where
  "recursive_len [] = Inl IndexError"
| "recursive_len (PList sub_tiles # rest) =
     (case recursive_len sub_tiles of
        Inl e \<Rightarrow> Inl e
      | Inr shape \<Rightarrow> Inr (length (PList sub_tiles # rest) # shape))"
| "recursive_len (x # rest) = Inr [length (x # rest)]"

fun deepcopy :: "pyval \<Rightarrow> tiles option" where
  "deepcopy (PInt v) = Some (Tile v)"
| "deepcopy (PList xs) = map_option Nested (those (map deepcopy xs))"
| "deepcopy _ = None"

definition init_load :: "(int \<Rightarrow> real) \<Rightarrow> pyval list \<Rightarrow> error + board" where
  "init_load pylog2 load_tiles =
     (if str_len (PList load_tiles) > 200
        then Inl (Exception ''Size of load_tiles is too large'')
      else
        (case validate_tiles pylog2 load_tiles 0 (- 1) Map.empty of
           Inl e \<Rightarrow> Inl e
         | Inr _ \<Rightarrow>
             (case recursive_len load_tiles of
                Inl e \<Rightarrow> Inl e
              | Inr shape \<Rightarrow>
                  (case deepcopy (PList load_tiles) of
                     None \<Rightarrow> Inl TypeError
                   | Some tiles \<Rightarrow> Inr \<lparr>get_shape = shape, get_tiles = tiles\<rparr>))))"

definition Board_init :: "(int \<Rightarrow> real) \<Rightarrow> int list \<Rightarrow> pyval \<Rightarrow> error + board" where
  "Board_init pylog2 shape load_tiles =
     (case load_tiles of
        PList (x # xs) \<Rightarrow> init_load pylog2 (x # xs)
      | _ \<Rightarrow> init_shape shape)"


subsection \<open>What validate_tiles accepts\<close>

text \<open>
  \<open>accepted\<close>: non-empty lists, and ints that pass the test of the leaves.
  \<open>int_leaves\<close>: the ints of a layout, depth first. \<open>leaf_invariant\<close> is the
  invariant in the specification's words: 0 or \<open>2^k\<close> for some \<open>k \<ge> 1\<close>.
\<close>

fun accepted :: "(int \<Rightarrow> real) \<Rightarrow> pyval \<Rightarrow> bool" where
  "accepted pylog2 (PInt v) = (0 \<le> v \<and> (0 < v \<longrightarrow> frac (pylog2 v) = 0))"
| "accepted pylog2 (PList xs) = (xs \<noteq> [] \<and> list_all (accepted pylog2) xs)"
| "accepted pylog2 _ = False"

fun int_leaves :: "pyval \<Rightarrow> int list" where
  "int_leaves (PInt v) = [v]"
| "int_leaves (PList xs) = concat (map int_leaves xs)"
| "int_leaves _ = []"

definition leaf_invariant :: "int \<Rightarrow> bool" where
  "leaf_invariant v \<longleftrightarrow> v = 0 \<or> (\<exists>k\<ge>1. v = 2 ^ k)"

lemma validate_accepted:
  "validate_tiles pylog2 tiles depth max_depth dims_length = Inr r
   \<Longrightarrow> list_all (accepted pylog2) tiles"
  "validate_loop pylog2 tiles depth max_depth dims_length = Inr r
   \<Longrightarrow> list_all (accepted pylog2) tiles"
proof (induction pylog2 tiles depth max_depth dims_length
    and pylog2 tiles depth max_depth dims_length arbitrary: r and r
    rule: validate_tiles_validate_loop.induct)
  case (1 pylog2 tiles depth max_depth dims_length)
  show ?case
  proof (cases "dims_length depth")
    case None
    with "1.prems" have
      "validate_loop pylog2 tiles depth max_depth (dims_length(depth \<mapsto> length tiles)) = Inr r"
      by simp
    from "1.IH"(1)[OF None this] show ?thesis .
  next
    case (Some n)
    with "1.prems" have n: "\<not> n \<noteq> length tiles"
      and l: "validate_loop pylog2 tiles depth max_depth dims_length = Inr r"
      by (auto split: if_splits)
    from "1.IH"(2)[OF Some n l] show ?thesis .
  qed
next
  case (2 pylog2 depth max_depth dims_length)
  then show ?case by simp
next
  case (3 pylog2 sub_tiles rest depth max_depth dims_length)
  from "3.prems" have ne: "0 < length sub_tiles" by (auto split: if_splits)
  with "3.prems" obtain d' m' D' where
    v: "validate_tiles pylog2 sub_tiles (depth + 1) max_depth dims_length = Inr (d', m', D')"
    and l: "validate_loop pylog2 rest d' m' D' = Inr r"
    by (auto split: sum.splits)
  from "3.IH"(1)[OF ne v] "3.IH"(2)[OF ne v refl refl l] ne show ?case by simp
next
  case (4 pylog2 sub_tiles rest depth max_depth dims_length)
  then show ?case by (auto split: if_splits)
qed simp_all

lemma accepted_leaves:
  "accepted pylog2 x \<Longrightarrow>
   \<exists>t. deepcopy x = Some t \<and> leaves t = int_leaves x
     \<and> (\<forall>v\<in>set (int_leaves x). 0 \<le> v \<and> (0 < v \<longrightarrow> frac (pylog2 v) = 0))"
proof (induction x rule: deepcopy.induct)
  case (1 v)
  then show ?case by simp
next
  case (2 xs)
  then have a: "list_all (accepted pylog2) xs" by simp
  have "\<exists>ts. those (map deepcopy xs) = Some ts \<and> map leaves ts = map int_leaves xs"
    using a "2.IH"
  proof (induction xs)
    case Nil
    then show ?case by simp
  next
    case (Cons x xs)
    then obtain t where t: "deepcopy x = Some t" "leaves t = int_leaves x" by auto
    from Cons obtain ts where "those (map deepcopy xs) = Some ts"
      "map leaves ts = map int_leaves xs" by auto
    with t show ?case by simp
  qed
  then obtain ts where ts: "those (map deepcopy xs) = Some ts"
    "map leaves ts = map int_leaves xs" by blast
  have "\<forall>v\<in>set (int_leaves (PList xs)). 0 \<le> v \<and> (0 < v \<longrightarrow> frac (pylog2 v) = 0)"
    using a "2.IH" by (auto simp: list_all_iff)
  with ts show ?case by simp
qed simp_all

lemma init_load_accepted:
  assumes "init_load pylog2 load_tiles = Inr b"
  shows "deepcopy (PList load_tiles) = Some (get_tiles b)"
    and "leaves (get_tiles b) = int_leaves (PList load_tiles)"
    and "\<forall>v\<in>set (leaves (get_tiles b)). 0 \<le> v \<and> (0 < v \<longrightarrow> frac (pylog2 v) = 0)"
    and "recursive_len load_tiles = Inr (get_shape b)"
    and "\<exists>r. validate_tiles pylog2 load_tiles 0 (- 1) Map.empty = Inr r"
proof -
  from assms obtain r shape t where
    v: "validate_tiles pylog2 load_tiles 0 (- 1) Map.empty = Inr r"
    and s: "recursive_len load_tiles = Inr shape"
    and t: "deepcopy (PList load_tiles) = Some t"
    and b: "b = \<lparr>get_shape = shape, get_tiles = t\<rparr>"
    by (auto simp: init_load_def split: if_splits sum.splits option.splits)
  have a: "list_all (accepted pylog2) load_tiles" by (rule validate_accepted(1)[OF v])
  have "load_tiles \<noteq> []" using s by auto
  with a have "accepted pylog2 (PList load_tiles)" by simp
  from accepted_leaves[OF this] t
  have "leaves t = int_leaves (PList load_tiles)"
    "\<forall>v\<in>set (int_leaves (PList load_tiles)). 0 \<le> v \<and> (0 < v \<longrightarrow> frac (pylog2 v) = 0)"
    by auto
  then show "leaves (get_tiles b) = int_leaves (PList load_tiles)"
    "\<forall>v\<in>set (leaves (get_tiles b)). 0 \<le> v \<and> (0 < v \<longrightarrow> frac (pylog2 v) = 0)"
    by (simp_all add: b)
  show "deepcopy (PList load_tiles) = Some (get_tiles b)"
    unfolding b using t by (simp del: deepcopy.simps)
  show "recursive_len load_tiles = Inr (get_shape b)" by (simp add: b s)
  show "\<exists>r. validate_tiles pylog2 load_tiles 0 (- 1) Map.empty = Inr r" using v by blast
qed

lemma init_load_rejects:
  assumes "v \<in> set (int_leaves (PList load_tiles))"
    "v < 0 \<or> (0 < v \<and> frac (pylog2 v) \<noteq> 0)"
  shows "\<exists>e. init_load pylog2 load_tiles = Inl e"
proof (cases "init_load pylog2 load_tiles")
  case (Inl e)
  then show ?thesis by blast
next
  case (Inr b)
  have "v \<in> set (leaves (get_tiles b))"
    using assms(1) by (simp only: init_load_accepted(2)[OF Inr])
  with init_load_accepted(3)[OF Inr] have "0 \<le> v \<and> (0 < v \<longrightarrow> frac (pylog2 v) = 0)"
    by blast
  with assms(2) show ?thesis by auto
qed

lemma exact_log2_whole:
  assumes "0 < v" "frac (log 2 (real_of_int v)) = 0"
  shows "\<exists>k. v = 2 ^ k"
proof -
  from assms(2) have "log 2 (real_of_int v) \<in> \<int>" by (simp add: frac_eq_0_iff)
  then obtain n where n: "log 2 (real_of_int v) = of_int n" by (auto elim: Ints_cases)
  have "0 \<le> log 2 (real_of_int v)" using assms(1) by simp
  with n have n0: "0 \<le> n" by simp
  have "real_of_int v = 2 powr (log 2 (real_of_int v))" using assms(1) by simp
  also have "\<dots> = 2 powr (real (nat n))" using n n0 by simp
  also have "\<dots> = 2 ^ nat n" by (simp add: powr_realpow)
  finally have "real_of_int v = real_of_int (2 ^ nat n)" by simp
  then have "v = 2 ^ nat n" by (simp only: of_int_eq_iff)
  then show ?thesis by blast
qed

lemma init_shape_leaves:
  assumes "init_shape shape = Inr b"
  shows "list_all (\<lambda>v. v = 0) (leaves (get_tiles b))"
proof -
  have "list_all (\<lambda>v. v = 0)
      (leaves (foldr (\<lambda>dim_length tile. Nested (replicate (nat dim_length) tile)) sh (Tile 0)))"
    for sh
    by (induction sh) (auto simp: list_all_iff)
  with assms show ?thesis
    by (auto simp: init_shape_def split: if_splits)
qed


lemma Board_init_load:
  "Board_init pylog2 shape (PList (x # xs)) = init_load pylog2 (x # xs)"
  by (simp add: Board_init_def)

lemma Board_init_shape:
  "(\<forall>x xs. load_tiles \<noteq> PList (x # xs)) \<Longrightarrow>
   Board_init pylog2 shape load_tiles = init_shape shape"
  by (auto simp: Board_init_def split: pyval.splits list.splits)

lemma Board_init_leaves:
  assumes "Board_init pylog2 shape load_tiles = Inr b"
  shows "list_all (\<lambda>v. 0 \<le> v \<and> (0 < v \<longrightarrow> frac (pylog2 v) = 0)) (leaves (get_tiles b))"
proof (cases "\<exists>x xs. load_tiles = PList (x # xs)")
  case True
  then obtain x xs where l: "load_tiles = PList (x # xs)" by blast
  from assms have "init_load pylog2 (x # xs) = Inr b" by (simp add: l Board_init_load)
  from init_load_accepted(3)[OF this] show ?thesis by (simp add: list_all_iff)
next
  case False
  then have "Board_init pylog2 shape load_tiles = init_shape shape"
    by (intro Board_init_shape) simp
  with assms have "init_shape shape = Inr b" by simp
  from init_shape_leaves[OF this] show ?thesis by (auto simp: list_all_iff)
qed

lemma log2_2: "log 2 2 = 1"
  by simp


lemma log2_4: "log 2 4 = 2"
proof -
  have "log 2 (2 ^ 2) = real 2" by (rule log_pow_cancel) simp_all
  then show ?thesis by simp
qed


lemma digits10_small [simp]: "n < 10 \<Longrightarrow> digits10 n = 1"
  by (simp add: digits10.simps)



lemma not_power_of_two: "\<not> (\<exists>k. (281474976710655::int) = 2 ^ k)"
proof
  assume "\<exists>k. (281474976710655::int) = 2 ^ k"
  then obtain k :: nat where k: "(281474976710655::int) = 2 ^ k" by blast
  show False
  proof (cases k)
    case 0
    with k show False by simp
  next
    case (Suc j)
    with k have "(281474976710655::int) = 2 * 2 ^ j" by simp
    then have "odd (2 * (2::int) ^ j)"
      by (metis dvd_triv_left even_numeral odd_numeral even_iff_mod_2_eq_zero)
    then show False by simp
  qed
qed

lemma digits10_15: "digits10 281474976710655 = 15"
  by (simp add: digits10.simps)

section \<open>Round.start\<close>

text \<open>
  \<open>Base_Defender.get_move_instruction\<close>. \<open>direction not in (-1,1)\<close> compares with
  \<open>==\<close>, so \<open>True\<close> passes for 1. An object kept as \<open>POther\<close> is taken to equal
  no int: this leaves out the floats \<open>1.0\<close> and \<open>-1.0\<close>, which pass the test of the
  source (and make \<open>Board.move\<close> raise afterwards); the decisions considered below
  hold no float.
\<close>

definition get_move_instruction ::
  "('t \<Rightarrow> error + instruction) \<Rightarrow> 't \<Rightarrow> error + instruction" where
  "get_move_instruction think tiles =
     (case think tiles of
        Inl e \<Rightarrow> Inl e
      | Inr move_instruction \<Rightarrow>
          (case move_instruction of
             NotDict _ \<Rightarrow> Inl (Exception ''move_instruction is not a dictionary'')
           | Dict d \<Rightarrow>
               if card (dom d) \<noteq> 3
               then Inl (Exception ''move instruction does not have three members only'')
               else
                 (case (d ''keepgoing'', d ''dimension'', d ''direction'') of
                    (Some keepgoing, Some dimension, Some direction) \<Rightarrow>
                      (case keepgoing of
                         PBool k \<Rightarrow>
                           if k then
                             (case dimension of
                                PInt _ \<Rightarrow>
                                  if direction \<noteq> PInt (- 1) \<and> direction \<noteq> PInt 1
                                     \<and> direction \<noteq> PBool True
                                  then Inl (Exception ''move direction is neither -1 nor 1'')
                                  else Inr move_instruction
                              | _ \<Rightarrow> Inl (Exception ''move dimension is not a number''))
                           else Inr move_instruction
                       | _ \<Rightarrow> Inl (Exception ''move keepgoing is not a bool''))
                  | _ \<Rightarrow>
                      Inl (Exception ''move instruction does not have expected members''))))"

text \<open>
  A provider is its \<open>think\<close>, a function of the provider's state and the tiles it is
  shown that returns a decision or raises, with the provider's next state; the model
  gives \<open>think\<close> the tiles as a value, so a provider cannot change the board through
  them. \<open>randint\<close> lists the draws of \<open>random.randint(0,9)\<close>. What \<open>start\<close>
  ends with: the score it returns (with the board and the states of the providers at
  that moment), \<open>sys.exit()\<close>, or an exception that nothing catches. The calls of the
  logger are left out.
\<close>

datatype turn = Attack | Defend

datatype ('a, 'd) outcome = Score int board 'a 'd | Exited | Raised error

definition keepgoing_of :: "instruction \<Rightarrow> bool" where
  "keepgoing_of i = (case i of Dict d \<Rightarrow> d ''keepgoing'' = Some (PBool True) | NotDict _ \<Rightarrow> False)"

definition member_of :: "instruction \<Rightarrow> string \<Rightarrow> pyval" where
  "member_of i k = (case i of Dict d \<Rightarrow> (case d k of Some v \<Rightarrow> v | None \<Rightarrow> PNone)
                    | NotDict _ \<Rightarrow> PNone)"

definition round_score ::
  "(int \<Rightarrow> real) \<Rightarrow> board \<Rightarrow> 'a \<Rightarrow> 'd \<Rightarrow> ('a, 'd) outcome" where
  "round_score pylog2 board a d =
     (case get_score pylog2 (get_tiles board) 0 of
        Inl e \<Rightarrow> Raised e
      | Inr score \<Rightarrow> Score score board a d)"

definition direction_int :: "pyval \<Rightarrow> int" where
  "direction_int v = (case v of PInt i \<Rightarrow> i | _ \<Rightarrow> 1)"

definition dimension_int :: "pyval \<Rightarrow> int" where
  "dimension_int v = (case v of PInt i \<Rightarrow> i | _ \<Rightarrow> 0)"

text \<open>
  One pass through the inner \<open>while\<close> loop of the role whose turn it is: the next
  state of the loops (\<open>Inl\<close>), or what \<open>start\<close> ends with (\<open>Inr\<close>).
  \<open>round_loop\<close> repeats it; a round that never ends has the value \<open>None\<close>.
\<close>

definition round_step ::
  "(int \<Rightarrow> real) \<Rightarrow> ('a \<Rightarrow> tiles \<Rightarrow> (error + instruction) \<times> 'a) \<Rightarrow>
   ('d \<Rightarrow> tiles \<Rightarrow> (error + instruction) \<times> 'd) \<Rightarrow> (nat \<Rightarrow> int) \<Rightarrow>
   turn \<times> board \<times> 'a \<times> 'd \<times> nat \<Rightarrow>
   (turn \<times> board \<times> 'a \<times> 'd \<times> nat) + ('a, 'd) outcome" where
  "round_step pylog2 attacker defender randint st =
     (case st of
        (Attack, board, a, d, n) \<Rightarrow>
          (case get_place_instruction (\<lambda>tiles. fst (attacker a tiles)) (get_tiles board) of
             Inl SystemExit \<Rightarrow> Inr Exited
           | Inl _ \<Rightarrow> Inl (Attack, board, snd (attacker a (get_tiles board)), d, n)
           | Inr attacker_instruction \<Rightarrow>
               if keepgoing_of attacker_instruction then
                 (case member_of attacker_instruction ''location'' of
                    PList location \<Rightarrow>
                      (case place board location (randint n) of
                         Inl e \<Rightarrow> Inr (Raised e)
                       | Inr (True, board') \<Rightarrow>
                           Inl (Defend, board', snd (attacker a (get_tiles board)), d, Suc n)
                       | Inr (False, board') \<Rightarrow>
                           Inl (Attack, board', snd (attacker a (get_tiles board)), d, n))
                  | _ \<Rightarrow> Inr (Raised TypeError))
               else Inr (round_score pylog2 board (snd (attacker a (get_tiles board))) d))
      | (Defend, board, a, d, n) \<Rightarrow>
          (case get_move_instruction (\<lambda>tiles. fst (defender d tiles)) (get_tiles board) of
             Inl SystemExit \<Rightarrow> Inr Exited
           | Inl _ \<Rightarrow> Inl (Defend, board, a, snd (defender d (get_tiles board)), n)
           | Inr defender_instruction \<Rightarrow>
               if keepgoing_of defender_instruction then
                 (case move board (dimension_int (member_of defender_instruction ''dimension''))
                         (direction_int (member_of defender_instruction ''direction'')) of
                    Inl e \<Rightarrow> Inr (Raised e)
                  | Inr (True, board') \<Rightarrow>
                      Inl (Attack, board', a, snd (defender d (get_tiles board)), n)
                  | Inr (False, board') \<Rightarrow>
                      Inl (Defend, board', a, snd (defender d (get_tiles board)), n))
               else Inr (round_score pylog2 board a (snd (defender d (get_tiles board))))))"

partial_function (option) round_loop :: "('s \<Rightarrow> 's + 'o) \<Rightarrow> 's \<Rightarrow> 'o option" where
  "round_loop body st =
     (case body st of Inl st' \<Rightarrow> round_loop body st' | Inr out \<Rightarrow> Some out)"

text \<open>
  \<open>start\<close>: the board is built, the providers are made from their type names
  (\<open>None\<close>: \<open>eval\<close> raised, or the class is not derived from the base class, and
  \<open>start\<close> exits), then the loops run from the attacker's turn.
\<close>

definition start ::
  "(int \<Rightarrow> real) \<Rightarrow> int list \<Rightarrow> pyval \<Rightarrow>
   (('a \<Rightarrow> tiles \<Rightarrow> (error + instruction) \<times> 'a) \<times> 'a) option \<Rightarrow>
   (('d \<Rightarrow> tiles \<Rightarrow> (error + instruction) \<times> 'd) \<times> 'd) option \<Rightarrow>
   (nat \<Rightarrow> int) \<Rightarrow> ('a, 'd) outcome option" where
  "start pylog2 board_shape board_tiles attacker defender randint =
     (case Board_init pylog2 board_shape board_tiles of
        Inl e \<Rightarrow> Some Exited
      | Inr board \<Rightarrow>
          (case attacker of
             None \<Rightarrow> Some Exited
           | Some (attacker_think, a) \<Rightarrow>
               (case defender of
                  None \<Rightarrow> Some Exited
                | Some (defender_think, d) \<Rightarrow>
                    round_loop (round_step pylog2 attacker_think defender_think randint)
                      (Attack, board, a, d, 0))))"


lemma Board_init_Nested:
  assumes "Board_init pylog2 shape load_tiles = Inr b"
  shows "\<exists>ts. get_tiles b = Nested ts"
proof (cases "\<exists>x xs. load_tiles = PList (x # xs)")
  case True
  then obtain x xs where l: "load_tiles = PList (x # xs)" by blast
  from assms have "init_load pylog2 (x # xs) = Inr b" by (simp add: l Board_init_load)
  from init_load_accepted(1)[OF this] show ?thesis by (auto dest: sym)
next
  case False
  then have "Board_init pylog2 shape load_tiles = init_shape shape"
    by (intro Board_init_shape) simp
  with assms have "init_shape shape = Inr b" by simp
  then show ?thesis by (cases shape) (auto simp: init_shape_def split: if_splits)
qed

lemma Board_init_score:
  assumes "Board_init pylog2 shape load_tiles = Inr b"
  shows "\<exists>score. get_score pylog2 (get_tiles b) 0 = Inr score"
proof -
  from Board_init_Nested[OF assms] obtain ts where ts: "get_tiles b = Nested ts" by blast
  have "list_all (\<lambda>v. 0 \<le> v) (leaves (Nested ts))"
    using Board_init_leaves[OF assms] unfolding ts list_all_iff by blast
  from get_score_leaves[OF this] show ?thesis by (simp add: ts)
qed

subsection \<open>Boards built by __init__ are regular\<close>

text \<open>
  \<open>conforms M D d x\<close>: the value \<open>x\<close>, met at depth \<open>d\<close>, agrees with the final
  state of \<open>validate_tiles\<close>: ints are at depth \<open>M\<close> only, a list at depth \<open>d + 1\<close>
  has the length \<open>D\<close> records for that depth and is not empty. \<open>pshape\<close> is the shape
  read along the first elements, as \<open>recursive_len\<close> does.
\<close>

fun conforms :: "int \<Rightarrow> (int \<rightharpoonup> nat) \<Rightarrow> int \<Rightarrow> pyval \<Rightarrow> bool" where
  "conforms M D d (PInt v) = (d = M)"
| "conforms M D d (PList xs) =
     (D (d + 1) = Some (length xs) \<and> xs \<noteq> [] \<and> list_all (conforms M D (d + 1)) xs)"
| "conforms M D d _ = False"

lemma conforms_mono:
  "conforms M D d x \<Longrightarrow> D \<subseteq>\<^sub>m D' \<Longrightarrow> conforms M D' d x"
proof (induction M D d x rule: conforms.induct)
  case (2 M D d xs)
  then have "D' (d + 1) = Some (length xs)"
    by (auto simp: map_le_def dom_def)
  moreover have "list_all (conforms M D' (d + 1)) xs"
    using 2 by (auto simp: list_all_iff)
  ultimately show ?case using 2 by simp
qed simp_all

lemma conforms_depth: "conforms M D d x \<Longrightarrow> d \<le> M"
proof (induction M D d x rule: conforms.induct)
  case (2 M D d xs)
  then obtain y ys where "xs = y # ys" by (cases xs) auto
  with 2 have "d + 1 \<le> M" by auto
  then show ?case by simp
qed simp_all

lemma validate_conforms:
  "validate_tiles pylog2 tiles depth max_depth dims_length = Inr (d', M', D') \<Longrightarrow>
   0 \<le> depth \<Longrightarrow>
   d' = depth - 1 \<and> dims_length \<subseteq>\<^sub>m D' \<and> (max_depth \<noteq> -1 \<longrightarrow> M' = max_depth)
   \<and> D' depth = Some (length tiles) \<and> (tiles \<noteq> [] \<longrightarrow> M' \<noteq> -1)
   \<and> list_all (conforms M' D' depth) tiles"
  "validate_loop pylog2 tiles depth max_depth dims_length = Inr (d', M', D') \<Longrightarrow>
   0 \<le> depth \<Longrightarrow>
   d' = depth - 1 \<and> dims_length \<subseteq>\<^sub>m D' \<and> (max_depth \<noteq> -1 \<longrightarrow> M' = max_depth)
   \<and> (tiles \<noteq> [] \<longrightarrow> M' \<noteq> -1)
   \<and> list_all (conforms M' D' depth) tiles"
proof (induction pylog2 tiles depth max_depth dims_length
    and pylog2 tiles depth max_depth dims_length arbitrary: d' M' D' and d' M' D'
    rule: validate_tiles_validate_loop.induct)
  case (1 pylog2 tiles depth max_depth dims_length)
  show ?case
  proof (cases "dims_length depth")
    case None
    with "1.prems" have l:
      "validate_loop pylog2 tiles depth max_depth (dims_length(depth \<mapsto> length tiles))
       = Inr (d', M', D')"
      by simp
    have "d' = depth - 1 \<and> dims_length(depth \<mapsto> length tiles) \<subseteq>\<^sub>m D'
      \<and> (max_depth \<noteq> -1 \<longrightarrow> M' = max_depth) \<and> (tiles \<noteq> [] \<longrightarrow> M' \<noteq> -1)
      \<and> list_all (conforms M' D' depth) tiles"
      using "1.IH"(1)[OF None l "1.prems"(2)] unfolding fun_upd_def .
    then have r: "d' = depth - 1" "dims_length(depth \<mapsto> length tiles) \<subseteq>\<^sub>m D'"
      "max_depth \<noteq> -1 \<longrightarrow> M' = max_depth" "tiles \<noteq> [] \<longrightarrow> M' \<noteq> -1"
      "list_all (conforms M' D' depth) tiles" by blast+
    from r(2) have "D' depth = Some (length tiles)"
      by (auto simp: map_le_def)
    moreover have "dims_length \<subseteq>\<^sub>m D'"
      using r(2) None by (auto simp: map_le_def dom_def split: if_splits)
    ultimately show ?thesis using r(1,3,4,5) by blast
  next
    case (Some n)
    with "1.prems" have n: "\<not> n \<noteq> length tiles"
      and l: "validate_loop pylog2 tiles depth max_depth dims_length = Inr (d', M', D')"
      by (auto split: if_splits)
    from "1.IH"(2)[OF Some n l "1.prems"(2)]
    have r: "d' = depth - 1" "dims_length \<subseteq>\<^sub>m D'"
      "max_depth \<noteq> -1 \<longrightarrow> M' = max_depth" "tiles \<noteq> [] \<longrightarrow> M' \<noteq> -1"
      "list_all (conforms M' D' depth) tiles" by blast+
    from r(2) Some n have "D' depth = Some (length tiles)"
      by (auto simp: map_le_def dom_def)
    then show ?thesis using r by blast
  qed
next
  case (2 pylog2 depth max_depth dims_length)
  then show ?case by auto
next
  case (3 pylog2 sub_tiles rest depth max_depth dims_length)
  from "3.prems" have ne: "0 < length sub_tiles" by (auto split: if_splits)
  with "3.prems" obtain d1 M1 D1 where
    v: "validate_tiles pylog2 sub_tiles (depth + 1) max_depth dims_length = Inr (d1, M1, D1)"
    and l: "validate_loop pylog2 rest d1 M1 D1 = Inr (d', M', D')"
    by (auto split: sum.splits)
  have d0: "0 \<le> depth + 1" using "3.prems"(2) by simp
  from "3.IH"(1)[OF ne v d0]
  have r1: "d1 = depth" "dims_length \<subseteq>\<^sub>m D1" "max_depth \<noteq> -1 \<longrightarrow> M1 = max_depth"
    "D1 (depth + 1) = Some (length sub_tiles)" "M1 \<noteq> -1"
    "list_all (conforms M1 D1 (depth + 1)) sub_tiles"
    using ne by auto
  have d1: "0 \<le> d1" using r1(1) "3.prems"(2) by simp
  from "3.IH"(2)[OF ne v refl refl l d1]
  have r2: "d' = d1 - 1" "D1 \<subseteq>\<^sub>m D'" "M' = M1" "list_all (conforms M' D' d1) rest"
    using r1(5) by auto
  have "conforms M1 D1 depth (PList sub_tiles)" using r1 ne by simp
  then have "conforms M' D' depth (PList sub_tiles)"
    using conforms_mono r2(2,3) by blast
  moreover have "dims_length \<subseteq>\<^sub>m D'" using r1(2) r2(2) map_le_trans by blast
  ultimately show ?case using r1 r2 by simp
next
  case (4 pylog2 sub_tiles rest depth max_depth dims_length)
  let ?M = "if max_depth = -1 then depth else max_depth"
  from "4.prems" have c: "\<not> ?M \<noteq> depth"
    "\<not> (sub_tiles < 0 \<or> (sub_tiles > 0 \<and> frac (pylog2 sub_tiles) \<noteq> 0))"
    and l: "validate_loop pylog2 rest depth ?M dims_length = Inr (d', M', D')"
    by (auto split: if_splits)
  from "4.IH"[OF c l "4.prems"(2)]
  have r: "d' = depth - 1" "dims_length \<subseteq>\<^sub>m D'" "?M \<noteq> -1 \<longrightarrow> M' = ?M"
    "list_all (conforms M' D' depth) rest" by auto
  have "?M = depth" using c by simp
  moreover have dn: "depth \<noteq> -1" using "4.prems"(2) by simp
  ultimately have m: "M' = depth" "?M = depth" using r(3) by simp_all
  show ?case using r m dn by (auto split: if_splits)
qed simp_all


fun pshape :: "pyval \<Rightarrow> nat list" where
  "pshape (PList (x # xs)) = length (x # xs) # pshape x"
| "pshape _ = []"

lemma conforms_leaf: "conforms M D M y \<Longrightarrow> pshape y = []"
proof (cases y)
  case (PList ys)
  assume c: "conforms M D M y"
  with PList obtain z zs where ys: "ys = z # zs" by (cases ys) auto
  from c have "conforms M D (M + 1) z" by (simp add: PList ys)
  from conforms_depth[OF this] show ?thesis by simp
qed simp_all

lemma conforms_pshape:
  "conforms M D d x \<Longrightarrow> conforms M D d y \<Longrightarrow> pshape x = pshape y"
proof (induction x arbitrary: d y rule: pshape.induct)
  case (1 x xs)
  note cx = "1.prems"(1) and cy = "1.prems"(2)
  from cx have x: "D (d + 1) = Some (length (x # xs))" "conforms M D (d + 1) x" by simp_all
  show ?case
  proof (cases y)
    case (PInt v)
    with cy have "d = M" by simp
    moreover from conforms_depth[OF x(2)] have "d + 1 \<le> M" .
    ultimately show ?thesis by simp
  next
    case (PList ys)
    with cy obtain z zs where ys: "ys = z # zs" by (cases ys) auto
    from cy have y: "D (d + 1) = Some (length (z # zs))" "conforms M D (d + 1) z"
      by (simp_all add: PList ys)
    from "1.IH"[OF x(2) y(2)] x(1) y(1) show ?thesis by (simp add: PList ys)
  qed (use cy in simp_all)
qed (auto dest: conforms_leaf)

lemma conforms_regular:
  "conforms M D d x \<Longrightarrow>
   \<exists>t. deepcopy x = Some t \<and> regular (pshape x) t \<and> list_all (\<lambda>n. 0 < n) (pshape x)"
proof (induction x arbitrary: d rule: deepcopy.induct)
  case (1 v)
  then show ?case by simp
next
  case (2 xs)
  from "2.prems" obtain x xs' where xs: "xs = x # xs'" by (cases xs) auto
  from "2.prems" have c: "\<forall>y\<in>set xs. conforms M D (d + 1) y"
    by (simp add: list_all_iff)
  then have cx: "conforms M D (d + 1) x" by (simp add: xs)
  have sh: "\<forall>y\<in>set xs. pshape y = pshape x"
    using conforms_pshape[OF _ cx] c by blast
  have "\<exists>ts. those (map deepcopy ys) = Some ts \<and> length ts = length ys
      \<and> list_all (regular (pshape x)) ts" if "set ys \<subseteq> set xs" for ys
    using that
  proof (induction ys)
    case Nil
    then show ?case by simp
  next
    case (Cons y ys)
    then have y: "y \<in> set xs" by simp
    from "2.IH"[OF y] c y obtain t where t: "deepcopy y = Some t" "regular (pshape y) t"
      by blast
    from Cons obtain ts where "those (map deepcopy ys) = Some ts" "length ts = length ys"
      "list_all (regular (pshape x)) ts" by auto
    with t sh y show ?case by simp
  qed
  from this[of xs] obtain ts where ts: "those (map deepcopy xs) = Some ts"
    "length ts = length xs" "list_all (regular (pshape x)) ts" by auto
  from "2.IH"[of x] cx have "list_all (\<lambda>n. 0 < n) (pshape x)" by (auto simp: xs)
  with ts show ?case by (simp add: xs)
qed simp_all

lemma conforms_recursive_len:
  "conforms M D d (PList xs) \<Longrightarrow> recursive_len xs = Inr (pshape (PList xs))"
proof (induction xs arbitrary: d rule: recursive_len.induct)
  case (2 sub_tiles rest)
  then have c: "conforms M D (d + 1) (PList sub_tiles)" by simp
  then obtain y ys where s: "sub_tiles = y # ys" by (cases sub_tiles) auto
  from "2.IH"[OF c] show ?case by (simp add: s)
qed simp_all

lemma init_shape_valid:
  assumes "init_shape shape = Inr b"
  shows "valid_board b"
proof -
  have "regular (map nat sh)
      (foldr (\<lambda>dim_length tile. Nested (replicate (nat dim_length) tile)) sh (Tile 0))"
    for sh
    by (induction sh) (auto simp: list_all_iff)
  moreover have "list_all (\<lambda>n. 0 < n) (map nat shape)" "shape \<noteq> []"
    using assms by (auto simp: init_shape_def list_all_iff list_ex_iff split: if_splits)
  ultimately show ?thesis using assms
    by (auto simp: init_shape_def valid_board_def split: if_splits)
qed

lemma init_load_valid:
  assumes "init_load pylog2 load_tiles = Inr b"
  shows "valid_board b"
proof -
  from init_load_accepted(5)[OF assms] obtain d' M' D' where
    v: "validate_tiles pylog2 load_tiles 0 (- 1) Map.empty = Inr (d', M', D')"
    by (metis prod_cases3)
  have ne: "load_tiles \<noteq> []" using init_load_accepted(4)[OF assms] by auto
  from validate_conforms(1)[OF v] have
    "D' 0 = Some (length load_tiles)" "list_all (conforms M' D' 0) load_tiles" by simp_all
  with ne have c: "conforms M' D' (- 1) (PList load_tiles)" by simp
  from conforms_regular[OF c] init_load_accepted(1)[OF assms]
  have r: "regular (pshape (PList load_tiles)) (get_tiles b)"
    "list_all (\<lambda>n. 0 < n) (pshape (PList load_tiles))" by (simp_all del: deepcopy.simps)
  from conforms_recursive_len[OF c] init_load_accepted(4)[OF assms]
  have s: "get_shape b = pshape (PList load_tiles)" by simp
  from ne obtain x xs where "load_tiles = x # xs" by (cases load_tiles) auto
  then have "pshape (PList load_tiles) \<noteq> []" by simp
  with r s show ?thesis by (simp add: valid_board_def)
qed

lemma Board_init_valid:
  assumes "Board_init pylog2 shape load_tiles = Inr b"
  shows "valid_board b"
proof (cases "\<exists>x xs. load_tiles = PList (x # xs)")
  case True
  then obtain x xs where l: "load_tiles = PList (x # xs)" by blast
  from assms have "init_load pylog2 (x # xs) = Inr b" by (simp add: l Board_init_load)
  then show ?thesis by (rule init_load_valid)
next
  case False
  then have "Board_init pylog2 shape load_tiles = init_shape shape"
    by (intro Board_init_shape) blast
  with assms show ?thesis by (simp add: init_shape_valid)
qed

section \<open>The store: lists as shared objects\<close>

text \<open>
  Python lists are objects: two names may denote the same list, and \<open>__set_tile\<close>
  changes a list in place. To state what a \<open>Board\<close> does to the lists of its caller the
  store is explicit here. A \<open>heap\<close> is the list of all list objects; the address of an
  object is its index, and a new object is appended. An element of a list is an int or
  the address of a list (the only values \<open>validate_tiles\<close> lets into a board).
  \<open>obj h a\<close> is the object at the address \<open>a\<close>.
\<close>

datatype cell = CInt int | CRef nat

type_synonym heap = "cell list list"

definition obj :: "heap \<Rightarrow> nat \<Rightarrow> cell list" where
  "obj h a = (if a < length h then h ! a else [])"

text \<open>
  \<open>__get_tile\<close> and \<open>__set_tile\<close> on the store, from the object \<open>self.__tiles\<close>
  names. \<open>__set_tile\<close> writes one element of one object.
\<close>

fun h_get_tile :: "heap \<Rightarrow> cell \<Rightarrow> int list \<Rightarrow> error + cell" where
  "h_get_tile h tile [] = Inr tile"
| "h_get_tile h (CInt v) (i # location) = Inl TypeError"
| "h_get_tile h (CRef a) (i # location) =
     (case py_index (obj h a) i of Inl e \<Rightarrow> Inl e | Inr t \<Rightarrow> h_get_tile h t location)"

fun h_set_tile :: "heap \<Rightarrow> cell \<Rightarrow> int list \<Rightarrow> cell \<Rightarrow> error + heap" where
  "h_set_tile h tile [] number = Inl IndexError"
| "h_set_tile h (CInt v) (i # location) number = Inl TypeError"
| "h_set_tile h (CRef a) [i] number =
     (case py_index (obj h a) i of
        Inl e \<Rightarrow> Inl e
      | Inr _ \<Rightarrow> Inr (h[a := (obj h a)[py_pos (obj h a) i := number]]))"
| "h_set_tile h (CRef a) (i # j # location) number =
     (case py_index (obj h a) i of
        Inl e \<Rightarrow> Inl e
      | Inr t \<Rightarrow> h_set_tile h t (j # location) number)"

text \<open>
  \<open>source==target\<close>: ints by value; an int never equals a list; two lists are equal
  when they are the same object, or have the same length and equal elements in turn.
  The first argument bounds the depth of the comparison; \<open>move_tile\<close> gives the number
  of objects, which no nesting without a cycle exceeds, and \<open>None\<close> is the
  \<open>RecursionError\<close> of a comparison that does not end.
  \<open>target*2\<close> doubles an int and builds a new list from a list.
\<close>

fun cell_eq :: "nat \<Rightarrow> heap \<Rightarrow> cell \<Rightarrow> cell \<Rightarrow> bool option"
  and list_eq :: "nat \<Rightarrow> heap \<Rightarrow> (cell \<times> cell) list \<Rightarrow> bool option" where
  "cell_eq n h (CInt v) (CInt w) = Some (v = w)"
| "cell_eq n h (CInt v) (CRef b) = Some False"
| "cell_eq n h (CRef a) (CInt w) = Some False"
| "cell_eq 0 h (CRef a) (CRef b) = None"
| "cell_eq (Suc n) h (CRef a) (CRef b) =
     (if a = b then Some True
      else if length (obj h a) \<noteq> length (obj h b) then Some False
      else list_eq n h (zip (obj h a) (obj h b)))"
| "list_eq n h [] = Some True"
| "list_eq n h ((x, y) # rest) =
     (case cell_eq n h x y of
        None \<Rightarrow> None
      | Some False \<Rightarrow> Some False
      | Some True \<Rightarrow> list_eq n h rest)"

definition h_double :: "heap \<Rightarrow> cell \<Rightarrow> heap \<times> cell" where
  "h_double h target =
     (case target of
        CInt v \<Rightarrow> (h, CInt (v * 2))
      | CRef a \<Rightarrow> (h @ [obj h a @ obj h a], CRef (length h)))"

text \<open>\<open>hmaxlen\<close>: the length of the longest object, a bound on every index that can be read.\<close>

definition hmaxlen :: "heap \<Rightarrow> nat" where
  "hmaxlen h = Max (insert 0 (length ` set h))"

lemma hmaxlen_obj: "length (obj h a) \<le> hmaxlen h"
proof (cases "a < length h")
  case True
  then have "length (h ! a) \<in> insert 0 (length ` set h)" by simp
  then have "length (h ! a) \<le> Max (insert 0 (length ` set h))" by (intro Max_ge) simp_all
  with True show ?thesis by (simp add: hmaxlen_def obj_def)
next
  case False
  then show ?thesis by (simp add: obj_def)
qed

lemma h_get_tile_bound:
  "h_get_tile h c location = Inr x \<Longrightarrow> k < length location \<Longrightarrow>
   - int (hmaxlen h) \<le> location ! k \<and> location ! k < int (hmaxlen h)"
proof (induction h c location arbitrary: k rule: h_get_tile.induct)
  case (3 h a i location)
  from "3.prems" obtain u where u: "py_index (obj h a) i = Inr u"
    "h_get_tile h u location = Inr x"
    by (auto split: sum.splits)
  from py_index_Inr[OF u(1)]
  have b: "- int (length (obj h a)) \<le> i" "i < int (length (obj h a))" by auto
  have l: "length (obj h a) \<le> hmaxlen h" by (rule hmaxlen_obj)
  show ?case
  proof (cases k)
    case 0
    then show ?thesis using b l by simp
  next
    case (Suc k')
    then have "k' < length location" using "3.prems" by simp
    from "3.IH"[OF u this] show ?thesis using Suc by simp
  qed
qed auto

lemma h_set_tile_lengths:
  "h_set_tile h c location x = Inr h' \<Longrightarrow> map length h' = map length h"
proof (induction h c location x rule: h_set_tile.induct)
  case (3 h a i number)
  then obtain u where u: "py_index (obj h a) i = Inr u"
    and h': "h' = h[a := (obj h a)[py_pos (obj h a) i := number]]"
    by (auto split: sum.splits)
  show ?case unfolding h'
    by (rule nth_equalityI) (simp_all add: obj_def nth_list_update)
next
  case (4 h a i j location number)
  then show ?case by (auto split: sum.splits)
qed auto

lemma h_set_tile_hmaxlen:
  "h_set_tile h c location x = Inr h' \<Longrightarrow> hmaxlen h' = hmaxlen h"
proof -
  assume "h_set_tile h c location x = Inr h'"
  from h_set_tile_lengths[OF this] have "set (map length h') = set (map length h)" by simp
  then show ?thesis by (simp add: hmaxlen_def)
qed

text \<open>
  \<open>move_tile\<close> on the store. The store is returned with the result also when an
  exception is raised, since the writes made before it stay.
\<close>

function h_move_tile ::
  "nat list \<Rightarrow> cell \<Rightarrow> nat \<Rightarrow> int \<Rightarrow> heap \<times> int list list \<Rightarrow> int list \<Rightarrow>
   (error + nat) \<times> heap \<times> int list list" where
  "h_move_tile shape tiles dimension direction (h, blocked_coordinates) coordinate =
     (if length coordinate \<le> dimension then (Inl IndexError, h, blocked_coordinates)
      else if direction \<noteq> -1 \<and> length shape \<le> dimension
        then (Inl IndexError, h, blocked_coordinates)
      else if coordinate ! dimension
                = (if direction = -1 then 0 else int (shape ! dimension) - 1)
        then (Inr 0, h, blocked_coordinates)
      else
        (case h_get_tile h tiles coordinate of
           Inl e \<Rightarrow> (Inl e, h, blocked_coordinates)
         | Inr source \<Rightarrow>
             if source = CInt 0 then (Inr 0, h, blocked_coordinates)
             else if coordinate[dimension := coordinate ! dimension + direction]
                       \<in> set blocked_coordinates
               then (Inr 0, h, blocked_coordinates)
             else
               (case h_get_tile h tiles
                       (coordinate[dimension := coordinate ! dimension + direction]) of
                  Inl e \<Rightarrow> (Inl e, h, blocked_coordinates)
                | Inr target \<Rightarrow>
                    (case cell_eq (length h) h source target of
                       None \<Rightarrow> (Inl RecursionError, h, blocked_coordinates)
                     | Some True \<Rightarrow>
                         (case h_set_tile (fst (h_double h target)) tiles
                                 (coordinate[dimension := coordinate ! dimension + direction])
                                 (snd (h_double h target)) of
                            Inl e \<Rightarrow> (Inl e, fst (h_double h target), blocked_coordinates)
                          | Inr h1 \<Rightarrow>
                              (case h_set_tile h1 tiles coordinate (CInt 0) of
                                 Inl e \<Rightarrow> (Inl e, h1, blocked_coordinates)
                               | Inr h2 \<Rightarrow>
                                   (Inr 1, h2,
                                    blocked_coordinates @
                                      [coordinate[dimension :=
                                         coordinate ! dimension + direction]])))
                     | Some False \<Rightarrow>
                         if target = CInt 0 then
                           (case h_set_tile h tiles
                                   (coordinate[dimension := coordinate ! dimension + direction])
                                   source of
                              Inl e \<Rightarrow> (Inl e, h, blocked_coordinates)
                            | Inr h1 \<Rightarrow>
                                (case h_set_tile h1 tiles coordinate (CInt 0) of
                                   Inl e \<Rightarrow> (Inl e, h1, blocked_coordinates)
                                 | Inr h2 \<Rightarrow>
                                     (case h_move_tile shape tiles dimension direction
                                             (h2, blocked_coordinates)
                                             (coordinate[dimension :=
                                                coordinate ! dimension + direction]) of
                                        (Inl e, h3, blocked3) \<Rightarrow> (Inl e, h3, blocked3)
                                      | (Inr steps, h3, blocked3) \<Rightarrow>
                                          (Inr (1 + steps), h3, blocked3))))
                         else (Inr 0, h, blocked_coordinates)))))"
  by pat_completeness auto
termination
proof (relation "measure (\<lambda>(shape, tiles, dimension, direction, (h, blocked), coordinate).
          if direction < 0 then nat (int (hmaxlen h) + coordinate ! dimension + 1)
          else nat (int (hmaxlen h) - coordinate ! dimension))", goal_cases)
  case 1
  show ?case by simp
next
  case (2 shape tiles dimension direction h blocked coordinate source target eq h1 h2)
  let ?tc = "coordinate[dimension := coordinate ! dimension + direction]"
  have d: "dimension < length coordinate" using 2 by simp
  have ne: "direction \<noteq> 0"
  proof
    assume "direction = 0"
    then have "?tc = coordinate" by simp
    with 2 show False by simp
  qed
  have tcd: "?tc ! dimension = coordinate ! dimension + direction" using d by simp
  have g: "h_get_tile h tiles ?tc = Inr target" using 2 by simp
  from h_get_tile_bound[OF g, of dimension] d tcd
  have b: "- int (hmaxlen h) \<le> coordinate ! dimension + direction"
    "coordinate ! dimension + direction < int (hmaxlen h)" by simp_all
  have s1: "h_set_tile h tiles ?tc source = Inr h1" using 2 by simp
  have s2: "h_set_tile h1 tiles coordinate (CInt 0) = Inr h2" using 2 by simp
  have m2: "hmaxlen h2 = hmaxlen h"
    using h_set_tile_hmaxlen[OF s1] h_set_tile_hmaxlen[OF s2] by simp
  show ?case using b m2 ne tcd by auto
qed

declare h_move_tile.simps [simp del]


text \<open>The loop of \<open>move\<close>; it ends at the first exception.\<close>

fun h_move_loop ::
  "nat list \<Rightarrow> cell \<Rightarrow> nat \<Rightarrow> int \<Rightarrow> int list list \<Rightarrow> nat \<times> heap \<times> int list list \<Rightarrow>
   (error + nat) \<times> heap \<times> int list list" where
  "h_move_loop shape tiles dimension direction [] (steps, h, blocked_coordinates) =
     (Inr steps, h, blocked_coordinates)"
| "h_move_loop shape tiles dimension direction (coordinate # rest)
       (steps, h, blocked_coordinates) =
     (case h_move_tile shape tiles dimension direction (h, blocked_coordinates) coordinate of
        (Inl e, h', blocked') \<Rightarrow> (Inl e, h', blocked')
      | (Inr s, h', blocked') \<Rightarrow>
          h_move_loop shape tiles dimension direction rest (steps + s, h', blocked'))"

text \<open>
  A \<open>Board\<close> object: \<open>__shape\<close> and the reference \<open>__tiles\<close>. Neither attribute is
  assigned after \<open>__init__\<close>; \<open>move\<close> and \<open>place\<close> change the store only.
\<close>

record hboard =
  h_shape :: "nat list"
  h_tiles :: cell

definition h_move :: "hboard \<Rightarrow> heap \<Rightarrow> int \<Rightarrow> int \<Rightarrow> (error + bool) \<times> heap" where
  "h_move b h dimension direction =
     (if \<not> (0 \<le> dimension \<and> dimension < int (length (h_shape b))) then (Inr False, h)
      else if direction \<noteq> -1 \<and> direction \<noteq> 1 then (Inr False, h)
      else
        (case generate_sequential_coordinates (h_shape b) (nat dimension) direction of
           Inl e \<Rightarrow> (Inl e, h)
         | Inr sequential_coordinates \<Rightarrow>
             (case h_move_loop (h_shape b) (h_tiles b) (nat dimension) direction
                     sequential_coordinates (0, h, []) of
                (Inl e, h', blocked_coordinates) \<Rightarrow> (Inl e, h')
              | (Inr steps, h', blocked_coordinates) \<Rightarrow> (Inr (steps > 0), h'))))"

definition h_place :: "hboard \<Rightarrow> heap \<Rightarrow> pyval list \<Rightarrow> int \<Rightarrow> (error + bool) \<times> heap" where
  "h_place b h location r =
     (if length location \<noteq> length (h_shape b) then (Inr False, h)
      else
        (case location_in_shape (zip location (h_shape b)) of
           None \<Rightarrow> (Inr False, h)
         | Some loc \<Rightarrow>
             (case h_get_tile h (h_tiles b) loc of
                Inl e \<Rightarrow> (Inl e, h)
              | Inr t \<Rightarrow>
                  if t = CInt 0 then
                    (case h_set_tile h (h_tiles b) loc (CInt (if r < 9 then 2 else 4)) of
                       Inl e \<Rightarrow> (Inl e, h)
                     | Inr h' \<Rightarrow> (Inr True, h'))
                  else (Inr False, h))))"

text \<open>
  \<open>read n h c\<close>: the value a cell denotes in a store, followed to the depth \<open>n\<close>;
  \<open>None\<close> when the nesting is deeper (a list that contains itself has no value).
\<close>

fun read :: "nat \<Rightarrow> heap \<Rightarrow> cell \<Rightarrow> pyval option" where
  "read n h (CInt v) = Some (PInt v)"
| "read 0 h (CRef a) = None"
| "read (Suc n) h (CRef a) =
     (if a < length h then map_option PList (those (map (read n h) (h ! a))) else None)"

text \<open>
  \<open>copy.deepcopy\<close> of the standard library on ints and lists: an int is returned as it
  is; a list that is in \<open>memo\<close> gives the copy recorded there; any other list gets a new
  empty list, recorded in \<open>memo\<close> before the elements are copied into it. The first
  argument bounds the depth.
\<close>

fun h_deepcopy ::
  "nat \<Rightarrow> heap \<Rightarrow> (nat \<times> nat) list \<Rightarrow> cell \<Rightarrow> (heap \<times> (nat \<times> nat) list \<times> cell) option"
  and h_deepcopy_list ::
  "nat \<Rightarrow> heap \<Rightarrow> (nat \<times> nat) list \<Rightarrow> cell list \<Rightarrow>
   (heap \<times> (nat \<times> nat) list \<times> cell list) option" where
  "h_deepcopy n h memo (CInt v) = Some (h, memo, CInt v)"
| "h_deepcopy 0 h memo (CRef a) = None"
| "h_deepcopy (Suc n) h memo (CRef a) =
     (case map_of memo a of
        Some y \<Rightarrow> Some (h, memo, CRef y)
      | None \<Rightarrow>
          (case h_deepcopy_list n (h @ [[]]) ((a, length h) # memo) (obj h a) of
             None \<Rightarrow> None
           | Some (h', memo', ys) \<Rightarrow> Some (h'[length h := ys], memo', CRef (length h))))"
| "h_deepcopy_list n h memo [] = Some (h, memo, [])"
| "h_deepcopy_list n h memo (x # xs) =
     (case h_deepcopy n h memo x of
        None \<Rightarrow> None
      | Some (h', memo', y) \<Rightarrow>
          (case h_deepcopy_list n h' memo' xs of
             None \<Rightarrow> None
           | Some (h'', memo'', ys) \<Rightarrow> Some (h'', memo'', y # ys)))"

text \<open>
  \<open>__init__\<close> for a layout. The checks (\<open>str\<close>, \<open>validate_tiles\<close>,
  \<open>recursive_len\<close>) only read the layout, so they are \<open>init_load\<close> on its value.
  A layout without a value contains itself: \<open>validate_tiles\<close> does not accept it, and
  the model records only that the construction raises.
\<close>

definition h_init_load ::
  "(int \<Rightarrow> real) \<Rightarrow> heap \<Rightarrow> cell \<Rightarrow> (error + hboard) \<times> heap" where
  "h_init_load pylog2 h load_tiles =
     (case read (length h) h load_tiles of
        Some (PList xs) \<Rightarrow>
          (case init_load pylog2 xs of
             Inl e \<Rightarrow> (Inl e, h)
           | Inr b \<Rightarrow>
               (case h_deepcopy (length h) h [] load_tiles of
                  None \<Rightarrow> (Inl RecursionError, h)
                | Some (h', memo, tiles) \<Rightarrow>
                    (Inr \<lparr>h_shape = get_shape b, h_tiles = tiles\<rparr>, h')))
      | _ \<Rightarrow> (Inl RecursionError, h))"

text \<open>
  \<open>__init__\<close> for a shape builds the grid of zeros from new lists
  (\<open>[deepcopy(tile) for count in range(...)]\<close>): \<open>alloc\<close> puts the tiles of
  \<open>init_shape\<close> into the store, every list a new object. \<open>h_Board_init\<close> is
  \<open>__init__\<close> with its test \<open>type(load_tiles) is list and len(load_tiles)>0\<close>.
\<close>

fun alloc :: "heap \<Rightarrow> tiles \<Rightarrow> heap \<times> cell"
  and alloc_list :: "heap \<Rightarrow> tiles list \<Rightarrow> heap \<times> cell list" where
  "alloc h (Tile v) = (h, CInt v)"
| "alloc h (Nested ts) =
     (case alloc_list h ts of (h', cs) \<Rightarrow> (h' @ [cs], CRef (length h')))"
| "alloc_list h [] = (h, [])"
| "alloc_list h (t # ts) =
     (case alloc h t of
        (h', c) \<Rightarrow> (case alloc_list h' ts of (h'', cs) \<Rightarrow> (h'', c # cs)))"

definition h_Board_init ::
  "(int \<Rightarrow> real) \<Rightarrow> heap \<Rightarrow> int list \<Rightarrow> cell \<Rightarrow> (error + hboard) \<times> heap" where
  "h_Board_init pylog2 h shape load_tiles =
     (if (case load_tiles of CRef a \<Rightarrow> length (obj h a) > 0 | CInt v \<Rightarrow> False)
      then h_init_load pylog2 h load_tiles
      else
        (case init_shape shape of
           Inl e \<Rightarrow> (Inl e, h)
         | Inr b \<Rightarrow>
             (case alloc h (get_tiles b) of
                (h', tiles) \<Rightarrow> (Inr \<lparr>h_shape = get_shape b, h_tiles = tiles\<rparr>, h'))))"

text \<open>Calls of \<open>place\<close> (with the random draw) and \<open>move\<close> on a board, one after the other.\<close>

datatype call = Place "pyval list" int | Move int int

fun h_call :: "hboard \<Rightarrow> heap \<Rightarrow> call \<Rightarrow> (error + bool) \<times> heap" where
  "h_call b h (Place location r) = h_place b h location r"
| "h_call b h (Move dimension direction) = h_move b h dimension direction"

fun h_calls :: "hboard \<Rightarrow> heap \<Rightarrow> call list \<Rightarrow> heap" where
  "h_calls b h [] = h"
| "h_calls b h (c # cs) = h_calls b (snd (h_call b h c)) cs"


subsection \<open>What the calls leave unchanged\<close>

text \<open>
  \<open>fresh_cell N c\<close>: the cell \<open>c\<close> is an int or a list created after the store had
  \<open>N\<close> objects. \<open>closed N h\<close>: the lists created after that point contain such cells
  only. \<open>frame_inv h0 h\<close>: the objects of \<open>h0\<close> are in \<open>h\<close> as they were, and the
  later ones are closed.
\<close>

definition fresh_cell :: "nat \<Rightarrow> cell \<Rightarrow> bool" where
  "fresh_cell N c = (case c of CInt v \<Rightarrow> True | CRef a \<Rightarrow> N \<le> a)"

definition closed :: "nat \<Rightarrow> heap \<Rightarrow> bool" where
  "closed N h \<longleftrightarrow> (\<forall>a\<ge>N. list_all (fresh_cell N) (obj h a))"

definition frame_inv :: "heap \<Rightarrow> heap \<Rightarrow> bool" where
  "frame_inv h0 h \<longleftrightarrow> take (length h0) h = h0 \<and> closed (length h0) h"

lemma fresh_cell_simps [simp]:
  "fresh_cell N (CInt v)" "fresh_cell N (CRef a) \<longleftrightarrow> N \<le> a"
  by (simp_all add: fresh_cell_def)

lemma frame_inv_length: "frame_inv h0 h \<Longrightarrow> length h0 \<le> length h"
proof -
  assume "frame_inv h0 h"
  then have "length (take (length h0) h) = length h0" by (simp add: frame_inv_def)
  then show ?thesis by simp
qed

lemma closed_obj: "closed N h \<Longrightarrow> N \<le> a \<Longrightarrow> x \<in> set (obj h a) \<Longrightarrow> fresh_cell N x"
  by (auto simp: closed_def list_all_iff)

lemma h_get_tile_fresh:
  "h_get_tile h c location = Inr t \<Longrightarrow> closed N h \<Longrightarrow> fresh_cell N c \<Longrightarrow> fresh_cell N t"
proof (induction h c location rule: h_get_tile.induct)
  case (3 h a i location)
  from "3.prems"(1) obtain u where u: "py_index (obj h a) i = Inr u"
    "h_get_tile h u location = Inr t"
    by (auto split: sum.splits)
  from py_index_Inr[OF u(1)] have "u \<in> set (obj h a)" by auto
  from closed_obj[OF "3.prems"(2) _ this] "3.prems"(3) have "fresh_cell N u" by simp
  from "3.IH"[OF u "3.prems"(2) this] show ?case .
qed auto

lemma closed_update:
  assumes "closed N h" "N \<le> a" "fresh_cell N x"
  shows "closed N (h[a := (obj h a)[k := x]])"
  unfolding closed_def
proof (intro allI impI)
  fix b assume b: "N \<le> b"
  show "list_all (fresh_cell N) (obj (h[a := (obj h a)[k := x]]) b)"
  proof (cases "b = a \<and> a < length h")
    case True
    then have o: "obj (h[a := (obj h a)[k := x]]) b = (obj h a)[k := x]"
      by (simp add: obj_def)
    have "\<forall>y \<in> set ((obj h a)[k := x]). fresh_cell N y"
    proof
      fix y assume "y \<in> set ((obj h a)[k := x])"
      then have "y = x \<or> y \<in> set (obj h a)"
        using set_update_subset_insert[of "obj h a" k x] by auto
      then show "fresh_cell N y" using assms closed_obj[OF assms(1,2)] by auto
    qed
    then show ?thesis by (simp add: o list_all_iff)
  next
    case False
    then have "obj (h[a := (obj h a)[k := x]]) b = obj h b"
      by (auto simp: obj_def)
    then show ?thesis using assms(1) b by (simp add: closed_def)
  qed
qed

lemma h_set_tile_frame:
  "h_set_tile h c location x = Inr h' \<Longrightarrow> closed N h \<Longrightarrow> fresh_cell N c \<Longrightarrow>
   fresh_cell N x \<Longrightarrow> closed N h' \<and> take N h' = take N h \<and> length h' = length h"
proof (induction h c location x rule: h_set_tile.induct)
  case (3 h a i number)
  from "3.prems"(1) have h': "h' = h[a := (obj h a)[py_pos (obj h a) i := number]]"
    by (auto split: sum.splits)
  have a: "N \<le> a" using "3.prems"(3) by simp
  from closed_update[OF "3.prems"(2) a "3.prems"(4)] a show ?case
    unfolding h' by simp
next
  case (4 h a i j location number)
  from "4.prems"(1) obtain u where u: "py_index (obj h a) i = Inr u"
    "h_set_tile h u (j # location) number = Inr h'"
    by (auto split: sum.splits)
  from py_index_Inr[OF u(1)] have "u \<in> set (obj h a)" by auto
  from closed_obj[OF "4.prems"(2) _ this] "4.prems"(3) have "fresh_cell N u" by simp
  from "4.IH"[OF u "4.prems"(2) this "4.prems"(4)] show ?case .
qed auto

lemma closed_append:
  assumes "closed N h" "list_all (fresh_cell N) ys"
  shows "closed N (h @ [ys])"
  unfolding closed_def
proof (intro allI impI)
  fix b assume b: "N \<le> b"
  consider "b < length h" | "b = length h" | "length h < b" by linarith
  then show "list_all (fresh_cell N) (obj (h @ [ys]) b)"
  proof cases
    case 1
    then have "obj (h @ [ys]) b = obj h b" by (simp add: obj_def nth_append)
    then show ?thesis using assms(1) b by (simp add: closed_def)
  next
    case 2
    then have "obj (h @ [ys]) b = ys" by (simp add: obj_def)
    then show ?thesis using assms(2) by simp
  next
    case 3
    then have "obj (h @ [ys]) b = []" by (simp add: obj_def)
    then show ?thesis by simp
  qed
qed

lemma h_double_frame:
  assumes "frame_inv h0 h" "fresh_cell (length h0) target"
  shows "frame_inv h0 (fst (h_double h target))"
    and "fresh_cell (length h0) (snd (h_double h target))"
proof -
  note l = frame_inv_length[OF assms(1)]
  show "fresh_cell (length h0) (snd (h_double h target))"
    using l by (cases target) (simp_all add: h_double_def)
  show "frame_inv h0 (fst (h_double h target))"
  proof (cases target)
    case (CInt v)
    then show ?thesis using assms(1) by (simp add: h_double_def)
  next
    case (CRef a)
    with assms(2) have a: "length h0 \<le> a" by simp
    have c: "closed (length h0) h" using assms(1) by (simp add: frame_inv_def)
    have "list_all (fresh_cell (length h0)) (obj h a @ obj h a)"
      using closed_obj[OF c a] by (simp add: list_all_iff)
    from closed_append[OF c this] assms(1) l show ?thesis
      by (simp add: h_double_def CRef frame_inv_def)
  qed
qed

lemma h_set_tile_frame_inv:
  assumes "h_set_tile h c location x = Inr h'" "frame_inv h0 h"
    "fresh_cell (length h0) c" "fresh_cell (length h0) x"
  shows "frame_inv h0 h'"
  using h_set_tile_frame[OF assms(1) _ assms(3,4)] assms(2)
  by (simp add: frame_inv_def)

lemma h_move_tile_frame:
  "frame_inv h0 h \<Longrightarrow> fresh_cell (length h0) tiles \<Longrightarrow>
   frame_inv h0 (fst (snd (h_move_tile shape tiles dimension direction (h, blocked) coordinate)))"
proof (induction shape tiles dimension direction "(h, blocked)" coordinate
    arbitrary: h blocked rule: h_move_tile.induct)
  case (1 shape tiles dimension direction h blocked coordinate)
  let ?tc = "coordinate[dimension := coordinate ! dimension + direction]"
  note inv = "1.prems"(1) and fr = "1.prems"(2)
  have c: "closed (length h0) h" using inv by (simp add: frame_inv_def)
  show ?case
  proof (cases "length coordinate \<le> dimension
      \<or> (direction \<noteq> -1 \<and> length shape \<le> dimension)
      \<or> coordinate ! dimension = (if direction = -1 then 0 else int (shape ! dimension) - 1)")
    case True
    then show ?thesis using inv by (subst h_move_tile.simps) auto
  next
    case w: False
    show ?thesis
    proof (cases "h_get_tile h tiles coordinate")
      case (Inl e)
      then show ?thesis using inv w by (subst h_move_tile.simps) auto
    next
      case (Inr source)
      note fs = h_get_tile_fresh[OF Inr c fr]
      show ?thesis
      proof (cases "source = CInt 0 \<or> ?tc \<in> set blocked")
        case True
        then show ?thesis using inv w Inr by (subst h_move_tile.simps) auto
      next
        case nb: False
        show ?thesis
        proof (cases "h_get_tile h tiles ?tc")
          case (Inl e)
          then show ?thesis using inv w Inr nb by (subst h_move_tile.simps) auto
        next
          case t: (Inr target)
          note ft = h_get_tile_fresh[OF t c fr]
          show ?thesis
          proof (cases "cell_eq (length h) h source target")
            case None
            then show ?thesis using inv w Inr nb t by (subst h_move_tile.simps) auto
          next
            case (Some eq)
            show ?thesis
            proof (cases eq)
              case True
              note d = h_double_frame[OF inv ft]
              show ?thesis
              proof (cases "h_set_tile (fst (h_double h target)) tiles ?tc
                               (snd (h_double h target))")
                case (Inl e)
                then show ?thesis using d(1) w Inr nb t Some True
                  by (subst h_move_tile.simps) auto
              next
                case h1: (Inr h1)
                note i1 = h_set_tile_frame_inv[OF h1 d(1) fr d(2)]
                show ?thesis
                proof (cases "h_set_tile h1 tiles coordinate (CInt 0)")
                  case (Inl e)
                  then show ?thesis using i1 w Inr nb t Some True h1
                    by (subst h_move_tile.simps) auto
                next
                  case h2: (Inr h2)
                  have "frame_inv h0 h2"
                    by (rule h_set_tile_frame_inv[OF h2 i1 fr]) simp
                  then show ?thesis using w Inr nb t Some True h1 h2
                    by (subst h_move_tile.simps) auto
                qed
              qed
            next
              case False
              show ?thesis
              proof (cases "target = CInt 0")
                case z: True
                show ?thesis
                proof (cases "h_set_tile h tiles ?tc source")
                  case (Inl e)
                  then show ?thesis using inv w Inr nb t Some False z
                    by (subst h_move_tile.simps) auto
                next
                  case h1: (Inr h1)
                  note i1 = h_set_tile_frame_inv[OF h1 inv fr fs]
                  show ?thesis
                  proof (cases "h_set_tile h1 tiles coordinate (CInt 0)")
                    case (Inl e)
                    then show ?thesis using i1 w Inr nb t Some False z h1
                      by (subst h_move_tile.simps) auto
                  next
                    case h2: (Inr h2)
                    have i2: "frame_inv h0 h2"
                      by (rule h_set_tile_frame_inv[OF h2 i1 fr]) simp
                    have "frame_inv h0 (fst (snd (h_move_tile shape tiles dimension direction
                        (h2, blocked) ?tc)))"
                      using w Inr nb t Some False z h1 h2
                      by (intro "1.hyps"[OF _ _ _ Inr _ _ t _ _ _ h1 h2 i2 fr]) auto
                    then show ?thesis using w Inr nb t Some False z h1 h2
                      by (subst h_move_tile.simps) (auto split: prod.splits sum.splits)
                  qed
                qed
              next
                case nz: False
                then show ?thesis using inv w Inr nb t Some False
                  by (subst h_move_tile.simps) auto
              qed
            qed
          qed
        qed
      qed
    qed
  qed
qed


lemma h_move_loop_frame:
  "frame_inv h0 h \<Longrightarrow> fresh_cell (length h0) tiles \<Longrightarrow>
   frame_inv h0 (fst (snd (h_move_loop shape tiles dimension direction cs (steps, h, blocked))))"
proof (induction cs arbitrary: steps h blocked)
  case Nil
  then show ?case by simp
next
  case (Cons c cs)
  obtain r h' blocked' where
    m: "h_move_tile shape tiles dimension direction (h, blocked) c = (r, h', blocked')"
    by (cases "h_move_tile shape tiles dimension direction (h, blocked) c") auto
  from h_move_tile_frame[OF Cons.prems, of shape dimension direction blocked c]
  have i: "frame_inv h0 h'" by (simp add: m)
  show ?case
  proof (cases r)
    case (Inl e)
    then show ?thesis using i m by simp
  next
    case (Inr s)
    from Cons.IH[OF i Cons.prems(2)] show ?thesis using m Inr by simp
  qed
qed

lemma h_move_frame:
  assumes "frame_inv h0 h" "fresh_cell (length h0) (h_tiles b)"
  shows "frame_inv h0 (snd (h_move b h dimension direction))"
proof -
  have "frame_inv h0 (snd (case h_move_loop (h_shape b) (h_tiles b) (nat dimension) direction
                     cs (0, h, []) of
                (Inl e, h', blocked_coordinates) \<Rightarrow> (Inl e, h')
              | (Inr steps, h', blocked_coordinates) \<Rightarrow> (Inr (steps > 0), h')))" for cs
    using h_move_loop_frame[OF assms, of "h_shape b" "nat dimension" direction cs 0 "[]"]
    by (auto split: prod.splits sum.splits)
  then show ?thesis using assms(1)
    by (auto simp: h_move_def split: sum.splits)
qed

lemma h_place_frame:
  assumes "frame_inv h0 h" "fresh_cell (length h0) (h_tiles b)"
  shows "frame_inv h0 (snd (h_place b h location r))"
proof -
  have "frame_inv h0 h'"
    if "h_set_tile h (h_tiles b) loc (CInt v) = Inr h'" for loc v h'
    by (rule h_set_tile_frame_inv[OF that assms]) simp
  then show ?thesis using assms(1)
    by (auto simp: h_place_def split: option.splits sum.splits)
qed

lemma h_calls_frame:
  "frame_inv h0 h \<Longrightarrow> fresh_cell (length h0) (h_tiles b) \<Longrightarrow>
   frame_inv h0 (h_calls b h calls)"
proof (induction calls arbitrary: h)
  case Nil
  then show ?case by simp
next
  case (Cons c cs)
  have "frame_inv h0 (snd (h_call b h c))"
    using h_move_frame[OF Cons.prems] h_place_frame[OF Cons.prems] by (cases c) simp_all
  from Cons.IH[OF this Cons.prems(2)] show ?case by simp
qed

definition fresh_memo :: "nat \<Rightarrow> (nat \<times> nat) list \<Rightarrow> bool" where
  "fresh_memo N memo \<longleftrightarrow> list_all (\<lambda>(a, y). N \<le> y) memo"

lemma fresh_memo_map_of: "fresh_memo N memo \<Longrightarrow> map_of memo a = Some y \<Longrightarrow> N \<le> y"
  by (auto simp: fresh_memo_def list_all_iff dest!: map_of_SomeD)

lemma h_deepcopy_frame:
  "h_deepcopy n h memo c = Some (h', memo', c') \<Longrightarrow>
   N \<le> length h \<Longrightarrow> closed N h \<Longrightarrow> fresh_memo N memo \<Longrightarrow>
   length h \<le> length h' \<and> closed N h' \<and> take N h' = take N h \<and> fresh_memo N memo'
   \<and> fresh_cell N c'"
  "h_deepcopy_list n h memo cs = Some (h', memo', cs') \<Longrightarrow>
   N \<le> length h \<Longrightarrow> closed N h \<Longrightarrow> fresh_memo N memo \<Longrightarrow>
   length h \<le> length h' \<and> closed N h' \<and> take N h' = take N h \<and> fresh_memo N memo'
   \<and> list_all (fresh_cell N) cs'"
proof (induction n h memo c and n h memo cs arbitrary: h' memo' c' and h' memo' cs'
    rule: h_deepcopy_h_deepcopy_list.induct)
  case (1 n h memo v)
  then show ?case by auto
next
  case (2 h memo a)
  then show ?case by simp
next
  case (3 n h memo a)
  show ?case
  proof (cases "map_of memo a")
    case (Some y)
    with "3.prems" fresh_memo_map_of[OF "3.prems"(4) Some] show ?thesis by auto
  next
    case None
    with "3.prems"(1) obtain h2 ys where
      l: "h_deepcopy_list n (h @ [[]]) ((a, length h) # memo) (obj h a) = Some (h2, memo', ys)"
      and r: "h' = h2[length h := ys]" "c' = CRef (length h)"
      by (auto split: option.splits)
    have p: "N \<le> length (h @ [[]])" using "3.prems"(2) by simp
    have c1: "closed N (h @ [[]])" by (rule closed_append[OF "3.prems"(3)]) simp
    have m1: "fresh_memo N ((a, length h) # memo)"
      using "3.prems"(2,4) by (simp add: fresh_memo_def)
    from "3.IH"[OF None l p c1 m1]
    have i: "length (h @ [[]]) \<le> length h2" "closed N h2" "take N h2 = take N (h @ [[]])"
      "fresh_memo N memo'" "list_all (fresh_cell N) ys" by blast+
    have "closed N (h2[length h := ys])"
      unfolding closed_def
    proof (intro allI impI)
      fix b assume b: "N \<le> b"
      show "list_all (fresh_cell N) (obj (h2[length h := ys]) b)"
      proof (cases "b = length h")
        case True
        then have "obj (h2[length h := ys]) b = ys" using i(1) by (simp add: obj_def)
        then show ?thesis using i(5) by simp
      next
        case False
        then have "obj (h2[length h := ys]) b = obj h2 b" by (simp add: obj_def)
        then show ?thesis using i(2) b by (simp add: closed_def)
      qed
    qed
    moreover have "take N (h2[length h := ys]) = take N h"
      using i(3) "3.prems"(2) by simp
    ultimately show ?thesis using i(1,4) "3.prems"(2) r by simp
  qed
next
  case (4 n h memo)
  then show ?case by simp
next
  case (5 n h memo x xs)
  from "5.prems"(1) obtain h1 memo1 y ys where
    x: "h_deepcopy n h memo x = Some (h1, memo1, y)"
    and xs: "h_deepcopy_list n h1 memo1 xs = Some (h', memo', ys)"
    and r: "cs' = y # ys"
    by (auto split: option.splits)
  from "5.IH"(1)[OF x "5.prems"(2,3,4)]
  have i: "length h \<le> length h1" "closed N h1" "take N h1 = take N h" "fresh_memo N memo1"
    "fresh_cell N y" by blast+
  have p: "N \<le> length h1" using i(1) "5.prems"(2) by simp
  from "5.IH"(2)[OF x refl refl xs p i(2) i(4)]
  have j: "length h1 \<le> length h'" "closed N h'" "take N h' = take N h1" "fresh_memo N memo'"
    "list_all (fresh_cell N) ys" by blast+
  show ?case using i j r by simp
qed

lemma those_map_cong:
  "those (map f xs) = Some ys \<Longrightarrow> (\<And>x y. x \<in> set xs \<Longrightarrow> f x = Some y \<Longrightarrow> g x = Some y)
   \<Longrightarrow> those (map g xs) = Some ys"
proof (induction xs arbitrary: ys)
  case Nil
  then show ?case by simp
next
  case (Cons x xs)
  from Cons.prems(1) obtain y ys' where y: "f x = Some y" "those (map f xs) = Some ys'"
    "ys = y # ys'"
    by (auto split: option.splits)
  from Cons.IH[OF y(2)] Cons.prems(2) have "those (map g xs) = Some ys'" by simp
  moreover from Cons.prems(2)[OF _ y(1)] have "g x = Some y" by simp
  ultimately show ?case using y(3) by simp
qed

lemma read_stable:
  "read n h c = Some v \<Longrightarrow> take (length h) h' = h \<Longrightarrow> read n h' c = Some v"
proof (induction n h c arbitrary: v rule: read.induct)
  case (3 n h a)
  from "3.prems"(1) have a: "a < length h" by (auto split: if_splits)
  with "3.prems"(1) obtain vs where vs: "those (map (read n h) (h ! a)) = Some vs"
    "v = PList vs" by auto
  have "length (take (length h) h') = length h" using "3.prems"(2) by simp
  then have l: "length h \<le> length h'" by simp
  have "take (length h) h' ! a = h' ! a" using a by simp
  then have e: "h' ! a = h ! a" using "3.prems"(2) by simp
  have "those (map (read n h') (h ! a)) = Some vs"
    using vs(1)
  proof (rule those_map_cong)
    fix x y assume "x \<in> set (h ! a)" "read n h x = Some y"
    from "3.IH"[OF a this "3.prems"(2)] show "read n h' x = Some y" .
  qed
  then show ?case using a l e vs(2) by simp
qed simp_all

lemma h_init_load_Inr:
  assumes "h_init_load pylog2 h0 load_tiles = (Inr b, h1)"
  shows "\<exists>xs vb memo. read (length h0) h0 load_tiles = Some (PList xs)
      \<and> init_load pylog2 xs = Inr vb \<and> h_shape b = get_shape vb
      \<and> h_deepcopy (length h0) h0 [] load_tiles = Some (h1, memo, h_tiles b)"
  using assms
  by (auto simp: h_init_load_def split: option.splits pyval.splits sum.splits)

lemma closed_take: "closed (length h) h"
  by (simp add: closed_def obj_def)

lemma h_init_load_frame:
  assumes "h_init_load pylog2 h0 load_tiles = (Inr b, h1)"
  shows "frame_inv h0 h1" "fresh_cell (length h0) (h_tiles b)"
proof -
  from h_init_load_Inr[OF assms] obtain memo where
    c: "h_deepcopy (length h0) h0 [] load_tiles = Some (h1, memo, h_tiles b)" by blast
  have "fresh_memo (length h0) []" by (simp add: fresh_memo_def)
  from h_deepcopy_frame(1)[OF c order_refl closed_take this]
  show "frame_inv h0 h1" "fresh_cell (length h0) (h_tiles b)"
    by (simp_all add: frame_inv_def)
qed


lemma alloc_frame:
  "alloc h t = (h', c) \<Longrightarrow> N \<le> length h \<Longrightarrow> closed N h \<Longrightarrow>
   length h \<le> length h' \<and> closed N h' \<and> take N h' = take N h \<and> fresh_cell N c"
  "alloc_list h ts = (h', cs) \<Longrightarrow> N \<le> length h \<Longrightarrow> closed N h \<Longrightarrow>
   length h \<le> length h' \<and> closed N h' \<and> take N h' = take N h
   \<and> list_all (fresh_cell N) cs"
proof (induction h t and h ts arbitrary: h' c and h' cs rule: alloc_alloc_list.induct)
  case (1 h v)
  then show ?case by auto
next
  case (2 h ts)
  from "2.prems"(1) obtain h2 cs where l: "alloc_list h ts = (h2, cs)"
    and r: "h' = h2 @ [cs]" "c = CRef (length h2)"
    by (auto split: prod.splits)
  from "2.IH"[OF l "2.prems"(2,3)]
  have i: "length h \<le> length h2" "closed N h2" "take N h2 = take N h"
    "list_all (fresh_cell N) cs" by blast+
  from closed_append[OF i(2,4)] i "2.prems"(2) r show ?case by simp
next
  case (3 h)
  then show ?case by simp
next
  case (4 h t ts)
  from "4.prems"(1) obtain h1 c h2 cs2 where
    x: "alloc h t = (h1, c)" and xs: "alloc_list h1 ts = (h2, cs2)"
    and r: "h' = h2" "cs = c # cs2"
    by (auto split: prod.splits)
  from "4.IH"(1)[OF x "4.prems"(2,3)]
  have i: "length h \<le> length h1" "closed N h1" "take N h1 = take N h" "fresh_cell N c"
    by blast+
  have p: "N \<le> length h1" using i(1) "4.prems"(2) by simp
  from "4.IH"(2)[OF x[symmetric] xs p i(2)]
  have j: "length h1 \<le> length h2" "closed N h2" "take N h2 = take N h1"
    "list_all (fresh_cell N) cs2" by blast+
  show ?case using i j r by simp
qed

lemma h_deepcopy_total:
  "read n h c = Some v \<Longrightarrow> take (length h) H = h \<Longrightarrow>
   \<exists>H' memo' c'. h_deepcopy n H memo c = Some (H', memo', c') \<and> take (length h) H' = h"
  "those (map (read n h) cs) = Some vs \<Longrightarrow> take (length h) H = h \<Longrightarrow>
   \<exists>H' memo' cs'. h_deepcopy_list n H memo cs = Some (H', memo', cs')
     \<and> take (length h) H' = h"
proof (induction n H memo c and n H memo cs arbitrary: v and vs
    rule: h_deepcopy_h_deepcopy_list.induct)
  case (1 n H memo w)
  then show ?case by simp
next
  case (2 H memo a)
  then show ?case by simp
next
  case (3 n H memo a)
  from "3.prems"(1) have a: "a < length h" by (auto split: if_splits)
  with "3.prems"(1) obtain ws where ws: "those (map (read n h) (h ! a)) = Some ws" by auto
  have "length (take (length h) H) = length h" using "3.prems"(2) by simp
  then have l: "length h \<le> length H" by simp
  have "take (length h) H ! a = H ! a" using a by simp
  then have e: "obj H a = h ! a" using "3.prems"(2) a l by (simp add: obj_def)
  show ?case
  proof (cases "map_of memo a")
    case (Some y)
    then show ?thesis using "3.prems"(2) by simp
  next
    case None
    have t: "take (length h) (H @ [[]]) = h" using "3.prems"(2) l by simp
    from "3.IH"[OF None, of ws] ws t e obtain H' memo' cs' where
      c: "h_deepcopy_list n (H @ [[]]) ((a, length H) # memo) (obj H a) = Some (H', memo', cs')"
      and t': "take (length h) H' = h" by auto
    have "take (length h) (H'[length H := cs']) = h" using t' l by simp
    with c None show ?thesis by simp
  qed
next
  case (4 n H memo)
  then show ?case by simp
next
  case (5 n H memo x xs)
  from "5.prems"(1) obtain w ws where w: "read n h x = Some w"
    and ws: "those (map (read n h) xs) = Some ws"
    by (auto split: option.splits)
  from "5.IH"(1)[OF w "5.prems"(2)] obtain H1 memo1 y where
    x: "h_deepcopy n H memo x = Some (H1, memo1, y)" and t1: "take (length h) H1 = h"
    by auto
  from "5.IH"(2)[OF x refl refl ws t1] obtain H2 memo2 ys where
    xs: "h_deepcopy_list n H1 memo1 xs = Some (H2, memo2, ys)"
    and t2: "take (length h) H2 = h" by auto
  show ?case using x xs t2 by simp
qed

lemma h_init_load_returns:
  assumes "read (length h) h load_tiles = Some (PList xs)" "init_load pylog2 xs = Inr vb"
  shows "\<exists>tiles h'. h_init_load pylog2 h load_tiles
           = (Inr \<lparr>h_shape = get_shape vb, h_tiles = tiles\<rparr>, h')"
proof -
  from h_deepcopy_total(1)[OF assms(1), of h "[]"] obtain h' memo' c' where
    "h_deepcopy (length h) h [] load_tiles = Some (h', memo', c')" by auto
  with assms show ?thesis by (simp add: h_init_load_def)
qed

lemma h_Board_init_frame:
  assumes "h_Board_init pylog2 h0 shape load_tiles = (Inr b, h1)"
  shows "frame_inv h0 h1" "fresh_cell (length h0) (h_tiles b)"
proof -
  have "frame_inv h0 h1 \<and> fresh_cell (length h0) (h_tiles b)"
  proof (cases "case load_tiles of CRef a \<Rightarrow> length (obj h0 a) > 0 | CInt v \<Rightarrow> False")
    case True
    with assms have "h_init_load pylog2 h0 load_tiles = (Inr b, h1)"
      by (simp add: h_Board_init_def)
    from h_init_load_frame[OF this] show ?thesis by simp
  next
    case False
    with assms obtain vb where vb: "init_shape shape = Inr vb"
      and a: "alloc h0 (get_tiles vb) = (h1, h_tiles b)"
      by (auto simp: h_Board_init_def split: sum.splits prod.splits)
    from alloc_frame(1)[OF a order_refl closed_take] show ?thesis
      by (simp add: frame_inv_def)
  qed
  then show "frame_inv h0 h1" "fresh_cell (length h0) (h_tiles b)" by simp_all
qed

lemma h_Board_init_load:
  assumes "read (length h) h (CRef a) = Some (PList xs)" "init_load pylog2 xs = Inr vb"
    "h_deepcopy (length h) h [] (CRef a) = Some (h', memo, tiles)" "0 < length (obj h a)"
  shows "h_Board_init pylog2 h shape (CRef a)
     = (Inr \<lparr>h_shape = get_shape vb, h_tiles = tiles\<rparr>, h')"
  using assms by (simp add: h_Board_init_def h_init_load_def)

subsection \<open>The copy has the value of the layout\<close>

text \<open>
  \<open>sim h H c c'\<close>: whatever value \<open>c\<close> has in \<open>h\<close>, \<open>c'\<close> has in \<open>H\<close>. While
  \<open>deepcopy\<close> runs, \<open>P\<close> holds the new lists whose elements are still being copied
  (the lists \<open>memo\<close> records for the lists that contain the one being copied):
  \<open>done_cell\<close> is a cell that is none of them, \<open>unref\<close> says that no new list
  contains one of them, and \<open>memo_ok\<close> that every other entry of \<open>memo\<close> is a finished
  copy. A list with a value does not contain itself, so \<open>memo\<close> is never asked for a
  list of \<open>P\<close>.
\<close>

lemma those_map_all2:
  "those (map f xs) = Some ys \<longleftrightarrow> list_all2 (\<lambda>x y. f x = Some y) xs ys"
proof (induction xs arbitrary: ys)
  case Nil
  then show ?case by auto
next
  case (Cons x xs)
  show ?case
  proof (cases ys)
    case Nil
    then show ?thesis by (auto split: option.splits)
  next
    case (Cons y ys')
    then show ?thesis using Cons.IH[of ys'] by (auto split: option.splits)
  qed
qed

lemma read_deterministic:
  "read k h c = Some v \<Longrightarrow> read k' h c = Some w \<Longrightarrow> v = w"
proof (induction k h c arbitrary: k' v w rule: read.induct)
  case (1 n h u)
  then show ?case by simp
next
  case (2 h a)
  then show ?case by simp
next
  case (3 n h a)
  from "3.prems"(1) have a: "a < length h" by (auto split: if_splits)
  from "3.prems"(2) obtain j where k': "k' = Suc j" by (cases k') auto
  from "3.prems"(1) a obtain vs where vs: "those (map (read n h) (h ! a)) = Some vs"
    "v = PList vs" by auto
  from "3.prems"(2) a k' obtain ws where ws: "those (map (read j h) (h ! a)) = Some ws"
    "w = PList ws" by auto
  from vs(1) have l1: "list_all2 (\<lambda>x y. read n h x = Some y) (h ! a) vs"
    by (simp add: those_map_all2)
  from ws(1) have l2: "list_all2 (\<lambda>x y. read j h x = Some y) (h ! a) ws"
    by (simp add: those_map_all2)
  have "vs = ws"
  proof (rule nth_equalityI)
    show "length vs = length ws" using l1 l2 by (simp add: list_all2_lengthD[symmetric])
  next
    fix i assume i: "i < length vs"
    then have ia: "i < length (h ! a)" using l1 by (simp add: list_all2_lengthD)
    from list_all2_nthD[OF l1 ia] have r1: "read n h ((h ! a) ! i) = Some (vs ! i)" .
    from list_all2_nthD[OF l2 ia] have r2: "read j h ((h ! a) ! i) = Some (ws ! i)" .
    from "3.IH"[OF a _ r1 r2] ia show "vs ! i = ws ! i" by simp
  qed
  then show ?case using vs(2) ws(2) by simp
qed

lemma h_deepcopy_extends:
  "h_deepcopy n H memo c = Some (H', memo', c') \<Longrightarrow>
   take (length H) H' = H \<and> (\<exists>new. memo' = new @ memo \<and> (\<forall>(a, y)\<in>set new. length H \<le> y))"
  "h_deepcopy_list n H memo cs = Some (H', memo', cs') \<Longrightarrow>
   take (length H) H' = H \<and> (\<exists>new. memo' = new @ memo \<and> (\<forall>(a, y)\<in>set new. length H \<le> y))"
proof (induction n H memo c and n H memo cs arbitrary: H' memo' c' and H' memo' cs'
    rule: h_deepcopy_h_deepcopy_list.induct)
  case (1 n h memo v)
  then show ?case by auto
next
  case (2 h memo a)
  then show ?case by simp
next
  case (3 n H memo a)
  show ?case
  proof (cases "map_of memo a")
    case (Some y)
    with "3.prems" show ?thesis by auto
  next
    case None
    with "3.prems"(1) obtain H2 ys where
      l: "h_deepcopy_list n (H @ [[]]) ((a, length H) # memo) (obj H a) = Some (H2, memo', ys)"
      and r: "H' = H2[length H := ys]"
      by (auto split: option.splits)
    from "3.IH"[OF None l] obtain new where
      t: "take (length (H @ [[]])) H2 = H @ [[]]"
      and m: "memo' = new @ (a, length H) # memo"
        "\<forall>(a, y)\<in>set new. length (H @ [[]]) \<le> y" by blast
    have "take (length H) (take (length (H @ [[]])) H2) = take (length H) (H @ [[]])"
      by (simp only: t)
    then have "take (length H) H2 = H" by (simp add: min_def)
    then have "take (length H) H' = H" by (simp add: r)
    moreover have "memo' = (new @ [(a, length H)]) @ memo" using m(1) by simp
    moreover have "\<forall>(a, y)\<in>set (new @ [(a, length H)]). length H \<le> y"
      using m(2) by auto
    ultimately show ?thesis by blast
  qed
next
  case (4 n h memo)
  then show ?case by simp
next
  case (5 n H memo x xs)
  from "5.prems"(1) obtain H1 memo1 y ys where
    x: "h_deepcopy n H memo x = Some (H1, memo1, y)"
    and xs: "h_deepcopy_list n H1 memo1 xs = Some (H', memo', ys)"
    by (auto split: option.splits)
  from "5.IH"(1)[OF x] obtain new1 where
    t1: "take (length H) H1 = H" and m1: "memo1 = new1 @ memo"
      "\<forall>(a, y)\<in>set new1. length H \<le> y" by blast
  from "5.IH"(2)[OF x refl refl xs] obtain new2 where
    t2: "take (length H1) H' = H1" and m2: "memo' = new2 @ memo1"
      "\<forall>(a, y)\<in>set new2. length H1 \<le> y" by blast
  have "length (take (length H) H1) = length H" by (simp only: t1)
  then have l: "length H \<le> length H1" by simp
  have "take (length H) (take (length H1) H') = take (length H) H1" by (simp only: t2)
  then have "take (length H) H' = H" using l t1 by (simp add: min_def)
  moreover have "memo' = (new2 @ new1) @ memo" using m1(1) m2(1) by simp
  moreover have "\<forall>(a, y)\<in>set (new2 @ new1). length H \<le> y"
    using m1(2) m2(2) l by fastforce
  ultimately show ?case by blast
qed


definition sim :: "heap \<Rightarrow> heap \<Rightarrow> cell \<Rightarrow> cell \<Rightarrow> bool" where
  "sim h H c c' \<longleftrightarrow> (\<forall>k v. read k h c = Some v \<longrightarrow> read k H c' = Some v)"

definition done_cell :: "heap \<Rightarrow> nat set \<Rightarrow> cell \<Rightarrow> bool" where
  "done_cell H P c = (case c of CInt v \<Rightarrow> True | CRef y \<Rightarrow> y < length H \<and> y \<notin> P)"

definition unref :: "nat \<Rightarrow> heap \<Rightarrow> nat set \<Rightarrow> bool" where
  "unref N H P \<longleftrightarrow> (\<forall>d\<ge>N. list_all (done_cell H P) (obj H d))"

definition memo_ok :: "heap \<Rightarrow> heap \<Rightarrow> nat set \<Rightarrow> nat \<Rightarrow> (nat \<times> nat) list \<Rightarrow> bool" where
  "memo_ok h H P s memo \<longleftrightarrow>
     (\<forall>(a, y)\<in>set memo. length h \<le> y \<and>
        (if y \<in> P then (\<forall>k w. read k h (CRef a) = Some w \<longrightarrow> s < size w)
         else y < length H \<and> sim h H (CRef a) (CRef y)))"

definition copy_inv :: "heap \<Rightarrow> heap \<Rightarrow> nat set \<Rightarrow> nat \<Rightarrow> (nat \<times> nat) list \<Rightarrow> bool" where
  "copy_inv h H P s memo \<longleftrightarrow>
     take (length h) H = h \<and> closed (length h) H \<and> unref (length h) H P
     \<and> memo_ok h H P s memo \<and> (\<forall>p\<in>P. p < length H)"

lemma done_cell_simps [simp]:
  "done_cell H P (CInt v)" "done_cell H P (CRef y) \<longleftrightarrow> y < length H \<and> y \<notin> P"
  by (simp_all add: done_cell_def)

lemma done_cell_mono:
  "done_cell H P c \<Longrightarrow> length H \<le> length H' \<Longrightarrow> Q \<subseteq> P \<Longrightarrow> done_cell H' Q c"
  by (cases c) auto

lemma sim_extend:
  "sim h H c c' \<Longrightarrow> take (length H) H' = H \<Longrightarrow> sim h H' c c'"
  unfolding sim_def using read_stable by blast

lemma unref_obj: "unref N H P \<Longrightarrow> N \<le> d \<Longrightarrow> x \<in> set (obj H d) \<Longrightarrow> done_cell H P x"
  by (auto simp: unref_def list_all_iff)

lemma read_update_unref:
  "closed N H \<Longrightarrow> unref N H {p} \<Longrightarrow> fresh_cell N c \<Longrightarrow> c \<noteq> CRef p \<Longrightarrow>
   read k (H[p := ys]) c = read k H c"
proof (induction k H c rule: read.induct)
  case (3 n H a)
  from "3.prems"(3,4) have a: "N \<le> a" "a \<noteq> p" by auto
  show ?case
  proof (cases "a < length H")
    case True
    have e: "H[p := ys] ! a = H ! a" using a(2) by simp
    have o: "obj H a = H ! a" using True by (simp add: obj_def)
    have "map (read n (H[p := ys])) (H ! a) = map (read n H) (H ! a)"
    proof (rule map_cong[OF refl])
      fix x assume x: "x \<in> set (H ! a)"
      then have f: "fresh_cell N x" using closed_obj[OF "3.prems"(1) a(1)] o by simp
      have "done_cell H {p} x" using unref_obj[OF "3.prems"(2) a(1)] x o by simp
      then have "x \<noteq> CRef p" by auto
      from "3.IH"[OF True x "3.prems"(1,2) f this]
      show "read n (H[p := ys]) x = read n H x" .
    qed
    then have m: "those (map (read n (H[p := ys])) (H ! a)) = those (map (read n H) (H ! a))"
      by (simp only:)
    have "read (Suc n) (H[p := ys]) (CRef a)
        = map_option PList (those (map (read n (H[p := ys])) (H ! a)))"
      using True e by simp
    also have "\<dots> = read (Suc n) H (CRef a)" using True by (simp add: m)
    finally show ?thesis .
  next
    case False
    then show ?thesis by simp
  qed
qed simp_all

lemma sim_update:
  "sim h H c c' \<Longrightarrow> closed N H \<Longrightarrow> unref N H {p} \<Longrightarrow> fresh_cell N c' \<Longrightarrow>
   c' \<noteq> CRef p \<Longrightarrow> sim h (H[p := ys]) c c'"
  unfolding sim_def using read_update_unref by simp

lemma unref_mono: "unref N H P \<Longrightarrow> Q \<subseteq> P \<Longrightarrow> unref N H Q"
  unfolding unref_def list_all_iff using done_cell_mono[OF _ order_refl] by blast

lemma memo_ok_fresh: "memo_ok h H P s memo \<Longrightarrow> fresh_memo (length h) memo"
  by (auto simp: memo_ok_def fresh_memo_def list_all_iff)

lemma take_length_le: "take n H = h \<Longrightarrow> n = length h \<Longrightarrow> length h \<le> length H"
proof -
  assume "take n H = h" "n = length h"
  then have "length (take (length h) H) = length h" by simp
  then show ?thesis by simp
qed

lemma copy_inv_alloc:
  assumes inv: "copy_inv h H P s memo"
    and rd: "read (Suc n) h (CRef a) = Some v" and sz: "size v \<le> s"
  shows "copy_inv h (H @ [[]]) (insert (length H) P) (size v - 1) ((a, length H) # memo)"
proof -
  from inv have t: "take (length h) H = h" and c: "closed (length h) H"
    and u: "unref (length h) H P" and m: "memo_ok h H P s memo"
    and b: "\<forall>p\<in>P. p < length H" by (simp_all add: copy_inv_def)
  have l: "length h \<le> length H" using take_length_le[OF t refl] .
  have t1: "take (length h) (H @ [[]]) = h" using t l by simp
  have c1: "closed (length h) (H @ [[]])" by (rule closed_append[OF c]) simp
  have u1: "unref (length h) (H @ [[]]) (insert (length H) P)"
    unfolding unref_def
  proof (intro allI impI)
    fix d assume d: "length h \<le> d"
    show "list_all (done_cell (H @ [[]]) (insert (length H) P)) (obj (H @ [[]]) d)"
    proof (cases "d < length H")
      case True
      then have o: "obj (H @ [[]]) d = obj H d" by (simp add: obj_def nth_append)
      have "\<forall>x\<in>set (obj H d). done_cell (H @ [[]]) (insert (length H) P) x"
      proof
        fix x assume "x \<in> set (obj H d)"
        from unref_obj[OF u d this] show "done_cell (H @ [[]]) (insert (length H) P) x"
          by (cases x) auto
      qed
      then show ?thesis by (simp add: o list_all_iff)
    next
      case False
      then have "obj (H @ [[]]) d = []" by (auto simp: obj_def nth_append)
      then show ?thesis by simp
    qed
  qed
  have m1: "memo_ok h (H @ [[]]) (insert (length H) P) (size v - 1) ((a, length H) # memo)"
    unfolding memo_ok_def
  proof (intro ballI)
    fix e assume e: "e \<in> set ((a, length H) # memo)"
    obtain a' y where ay: "e = (a', y)" by (cases e) auto
    show "case e of (a, y) \<Rightarrow> length h \<le> y \<and>
        (if y \<in> insert (length H) P
         then \<forall>k w. read k h (CRef a) = Some w \<longrightarrow> size v - 1 < size w
         else y < length (H @ [[]]) \<and> sim h (H @ [[]]) (CRef a) (CRef y))"
    proof (cases "e = (a, length H)")
      case True
      have "size v - 1 < size w" if "read k h (CRef a) = Some w" for k w
      proof -
        from read_deterministic[OF rd that] have "w = v" by simp
        moreover from rd obtain vs where "v = PList vs" by (auto split: if_splits)
        ultimately show ?thesis by simp
      qed
      then show ?thesis using True l by auto
    next
      case False
      with e ay have in_memo: "(a', y) \<in> set memo" by auto
      with m have 1: "length h \<le> y"
        and 2: "y \<in> P \<Longrightarrow> \<forall>k w. read k h (CRef a') = Some w \<longrightarrow> s < size w"
        and 3: "y \<notin> P \<Longrightarrow> y < length H \<and> sim h H (CRef a') (CRef y)"
        by (auto simp: memo_ok_def split: if_splits)
      show ?thesis
      proof (cases "y \<in> P")
        case True
        from 2[OF True] sz have "\<forall>k w. read k h (CRef a') = Some w \<longrightarrow> size v - 1 < size w"
          by fastforce
        then show ?thesis using True 1 ay by simp
      next
        case False
        from 3[OF False] have y: "y < length H" and s: "sim h H (CRef a') (CRef y)" by simp_all
        have "sim h (H @ [[]]) (CRef a') (CRef y)" by (rule sim_extend[OF s]) simp
        then show ?thesis using False y 1 ay by simp
      qed
    qed
  qed
  have b1: "\<forall>p\<in>insert (length H) P. p < length (H @ [[]])" using b by auto
  show ?thesis using t1 c1 u1 m1 b1 by (simp add: copy_inv_def)
qed


lemma copy_inv_fill:
  assumes inv: "copy_inv h H P s memo"
    and rd: "read (Suc n) h (CRef a) = Some v"
    and inv2: "copy_inv h H2 (insert (length H) P) s1 memo'"
    and ext: "take (length (H @ [[]])) H2 = H @ [[]]"
    and mm: "memo' = new @ (a, length H) # memo" "\<forall>(a, y)\<in>set new. length (H @ [[]]) \<le> y"
    and sims: "list_all2 (sim h H2) (obj H a) ys"
    and dn: "\<forall>c'\<in>set ys. done_cell H2 (insert (length H) P) c'"
    and fr: "list_all (fresh_cell (length h)) ys"
  shows "copy_inv h (H2[length H := ys]) P s memo'"
    and "sim h (H2[length H := ys]) (CRef a) (CRef (length H))"
proof -
  let ?p = "length H"
  let ?H' = "H2[?p := ys]"
  from inv have t: "take (length h) H = h" and m: "memo_ok h H P s memo"
    and b: "\<forall>p\<in>P. p < length H" by (simp_all add: copy_inv_def)
  from inv2 have t2: "take (length h) H2 = h" and c2: "closed (length h) H2"
    and u2: "unref (length h) H2 (insert ?p P)" and m2: "memo_ok h H2 (insert ?p P) s1 memo'"
    by (simp_all add: copy_inv_def)
  have l: "length h \<le> length H" using take_length_le[OF t refl] .
  have l2: "length (H @ [[]]) \<le> length H2" using take_length_le[OF ext refl] .
  then have p2: "?p < length H2" by simp
  have pP: "?p \<notin> P" using b by auto
  have up: "unref (length h) H2 {?p}" by (rule unref_mono[OF u2]) simp
  have "take ?p (take (length (H @ [[]])) H2) = take ?p (H @ [[]])" by (simp only: ext)
  then have e2: "take ?p H2 = H" by (simp add: min_def)
  then have e': "take ?p ?H' = H" by simp
  have t': "take (length h) ?H' = h" using t2 l by simp
  have c': "closed (length h) ?H'"
    unfolding closed_def
  proof (intro allI impI)
    fix d assume d: "length h \<le> d"
    show "list_all (fresh_cell (length h)) (obj ?H' d)"
    proof (cases "d = ?p")
      case True
      then have "obj ?H' d = ys" using p2 by (simp add: obj_def)
      then show ?thesis using fr by simp
    next
      case False
      then have "obj ?H' d = obj H2 d" by (simp add: obj_def)
      then show ?thesis using c2 d by (simp add: closed_def)
    qed
  qed
  have u': "unref (length h) ?H' P"
    unfolding unref_def
  proof (intro allI impI)
    fix d assume d: "length h \<le> d"
    have "\<forall>x\<in>set (obj ?H' d). done_cell ?H' P x"
    proof
      fix x assume x: "x \<in> set (obj ?H' d)"
      have "done_cell H2 (insert ?p P) x"
      proof (cases "d = ?p")
        case True
        then have "obj ?H' d = ys" using p2 by (simp add: obj_def)
        with x dn show ?thesis by simp
      next
        case False
        then have "obj ?H' d = obj H2 d" by (simp add: obj_def)
        with x unref_obj[OF u2 d] show ?thesis by simp
      qed
      then show "done_cell ?H' P x" by (rule done_cell_mono) auto
    qed
    then show "list_all (done_cell ?H' P) (obj ?H' d)" by (simp add: list_all_iff)
  qed
  have a: "a < length h" using rd by (auto split: if_splits)
  have "take (length h) H ! a = H ! a" using a by simp
  then have oa: "obj H a = h ! a" using t a l by (simp add: obj_def)
  show sa: "sim h ?H' (CRef a) (CRef ?p)"
    unfolding sim_def
  proof (intro allI impI)
    fix k w assume r: "read k h (CRef a) = Some w"
    then obtain j where k: "k = Suc j" by (cases k) auto
    from r a k obtain ws where ws: "those (map (read j h) (h ! a)) = Some ws" "w = PList ws"
      by auto
    from ws(1) have la: "list_all2 (\<lambda>x y. read j h x = Some y) (h ! a) ws"
      by (simp add: those_map_all2)
    have "list_all2 (\<lambda>x y. read j ?H' x = Some y) ys ws"
    proof (rule list_all2_all_nthI)
      show "length ys = length ws"
        using sims la oa by (simp add: list_all2_lengthD[symmetric])
    next
      fix i assume i: "i < length ys"
      then have ia: "i < length (h ! a)" using sims oa by (simp add: list_all2_lengthD)
      from list_all2_nthD[OF la ia] have r1: "read j h ((h ! a) ! i) = Some (ws ! i)" .
      from list_all2_nthD[OF sims] ia oa have "sim h H2 ((h ! a) ! i) (ys ! i)" by simp
      with r1 have r2: "read j H2 (ys ! i) = Some (ws ! i)" by (simp add: sim_def)
      have yi: "ys ! i \<in> set ys" using i by simp
      with fr have f: "fresh_cell (length h) (ys ! i)" by (simp add: list_all_iff)
      from dn yi have "done_cell H2 (insert ?p P) (ys ! i)" by blast
      then have ne: "ys ! i \<noteq> CRef ?p" by auto
      from read_update_unref[OF c2 up f ne, of j ys] r2
      show "read j ?H' (ys ! i) = Some (ws ! i)" by simp
    qed
    then have "those (map (read j ?H') ys) = Some ws" by (simp add: those_map_all2)
    then show "read k ?H' (CRef ?p) = Some w" using k ws(2) p2 by simp
  qed
  have m': "memo_ok h ?H' P s memo'"
    unfolding memo_ok_def
  proof (intro ballI)
    fix e assume e: "e \<in> set memo'"
    obtain a' y where ay: "e = (a', y)" by (cases e) auto
    from e mm(1) ay consider "(a', y) \<in> set new" | "a' = a \<and> y = ?p" | "(a', y) \<in> set memo"
      by auto
    then have "length h \<le> y \<and>
        (if y \<in> P then \<forall>k w. read k h (CRef a') = Some w \<longrightarrow> s < size w
         else y < length ?H' \<and> sim h ?H' (CRef a') (CRef y))"
    proof cases
      case 1
      with mm(2) have y: "Suc ?p \<le> y" by auto
      then have yP: "y \<notin> insert ?p P" using b by auto
      from e ay m2 yP have i: "length h \<le> y" "y < length H2" "sim h H2 (CRef a') (CRef y)"
        by (auto simp: memo_ok_def split: if_splits)
      have "sim h ?H' (CRef a') (CRef y)"
        by (rule sim_update[OF i(3) c2 up]) (use i(1) y in auto)
      then show ?thesis using i yP by simp
    next
      case 2
      then show ?thesis using sa pP p2 l by simp
    next
      case 3
      with m have 1: "length h \<le> y"
        and 2: "y \<in> P \<Longrightarrow> \<forall>k w. read k h (CRef a') = Some w \<longrightarrow> s < size w"
        and 3: "y \<notin> P \<Longrightarrow> y < length H \<and> sim h H (CRef a') (CRef y)"
        by (auto simp: memo_ok_def split: if_splits)
      show ?thesis
      proof (cases "y \<in> P")
        case True
        with 1 2 show ?thesis by simp
      next
        case False
        from 3[OF False] have y: "y < length H" and sy: "sim h H (CRef a') (CRef y)"
          by simp_all
        have "sim h ?H' (CRef a') (CRef y)" by (rule sim_extend[OF sy e'])
        then show ?thesis using False 1 y p2 by simp
      qed
    qed
    then show "case e of (a, y) \<Rightarrow> length h \<le> y \<and>
        (if y \<in> P then \<forall>k w. read k h (CRef a) = Some w \<longrightarrow> s < size w
         else y < length ?H' \<and> sim h ?H' (CRef a) (CRef y))"
      unfolding ay prod.case .
  qed
  have b': "\<forall>p\<in>P. p < length ?H'" using b p2 by auto
  show "copy_inv h ?H' P s memo'" using t' c' u' m' b' by (simp add: copy_inv_def)
qed


lemma h_deepcopy_sim:
  "h_deepcopy n H memo c = Some (H', memo', c') \<Longrightarrow> read n h c = Some v \<Longrightarrow> size v \<le> s \<Longrightarrow>
   copy_inv h H P s memo \<Longrightarrow>
   copy_inv h H' P s memo' \<and> sim h H' c c' \<and> done_cell H' P c'"
  "h_deepcopy_list n H memo cs = Some (H', memo', cs') \<Longrightarrow>
   those (map (read n h) cs) = Some vs \<Longrightarrow> \<forall>v\<in>set vs. size v \<le> s \<Longrightarrow>
   copy_inv h H P s memo \<Longrightarrow>
   copy_inv h H' P s memo' \<and> list_all2 (sim h H') cs cs' \<and> (\<forall>c'\<in>set cs'. done_cell H' P c')"
proof (induction n H memo c and n H memo cs arbitrary: H' memo' c' v s P and H' memo' cs' vs s P
    rule: h_deepcopy_h_deepcopy_list.induct)
  case (1 n H memo u)
  then show ?case by (auto simp: sim_def)
next
  case (2 H memo a)
  then show ?case by simp
next
  case (3 n H memo a)
  note cp = "3.prems"(1) and rd = "3.prems"(2) and sz = "3.prems"(3) and inv = "3.prems"(4)
  from inv have t: "take (length h) H = h" and c: "closed (length h) H"
    and m: "memo_ok h H P s memo" and b: "\<forall>p\<in>P. p < length H"
    by (simp_all add: copy_inv_def)
  have l: "length h \<le> length H" using take_length_le[OF t refl] .
  show ?case
  proof (cases "map_of memo a")
    case (Some y)
    with cp have r: "H' = H" "memo' = memo" "c' = CRef y" by simp_all
    from map_of_SomeD[OF Some] m have
      1: "y \<in> P \<Longrightarrow> \<forall>k w. read k h (CRef a) = Some w \<longrightarrow> s < size w"
      and 2: "y \<notin> P \<Longrightarrow> y < length H \<and> sim h H (CRef a) (CRef y)"
      by (auto simp: memo_ok_def split: if_splits)
    have yP: "y \<notin> P"
    proof
      assume "y \<in> P"
      from 1[OF this] rd have "s < size v" by blast
      with sz show False by simp
    qed
    from 2[OF yP] yP inv show ?thesis by (simp add: r)
  next
    case None
    with cp obtain H2 ys where
      lc: "h_deepcopy_list n (H @ [[]]) ((a, length H) # memo) (obj H a) = Some (H2, memo', ys)"
      and r: "H' = H2[length H := ys]" "c' = CRef (length H)"
      by (auto split: option.splits)
    from rd have a: "a < length h" by (auto split: if_splits)
    with rd obtain ws where ws: "those (map (read n h) (h ! a)) = Some ws" "v = PList ws"
      by auto
    have "take (length h) H ! a = H ! a" using a by simp
    then have oa: "obj H a = h ! a" using t a l by (simp add: obj_def)
    have sw: "\<forall>x\<in>set ws. size x \<le> size v - 1"
    proof
      fix x assume "x \<in> set ws"
      from size_list_estimation'[OF this order_refl, of size]
      show "size x \<le> size v - 1" by (simp add: ws(2))
    qed
    note inv1 = copy_inv_alloc[OF inv rd sz]
    from "3.IH"[OF None lc _ sw inv1] ws(1) oa
    have i2: "copy_inv h H2 (insert (length H) P) (size v - 1) memo'"
      "list_all2 (sim h H2) (obj H a) ys"
      "\<forall>c'\<in>set ys. done_cell H2 (insert (length H) P) c'" by simp_all
    from h_deepcopy_extends(2)[OF lc] obtain new where
      ext: "take (length (H @ [[]])) H2 = H @ [[]]"
      and mm: "memo' = new @ (a, length H) # memo"
        "\<forall>(a, y)\<in>set new. length (H @ [[]]) \<le> y" by blast
    from inv1 have c1: "closed (length h) (H @ [[]])"
      and m1: "memo_ok h (H @ [[]]) (insert (length H) P) (size v - 1) ((a, length H) # memo)"
      by (simp_all add: copy_inv_def)
    have l1: "length h \<le> length (H @ [[]])" using l by simp
    from h_deepcopy_frame(2)[OF lc l1 c1 memo_ok_fresh[OF m1]]
    have fr: "list_all (fresh_cell (length h)) ys" by blast
    note f = copy_inv_fill[OF inv rd i2(1) ext mm i2(2,3) fr]
    have "length (H @ [[]]) \<le> length H2" using take_length_le[OF ext refl] .
    then have "done_cell H' P (CRef (length H))" using b by (auto simp: r)
    with f show ?thesis by (simp add: r)
  qed
next
  case (4 n H memo)
  then show ?case by simp
next
  case (5 n H memo x xs)
  note cp = "5.prems"(1) and rd = "5.prems"(2) and sz = "5.prems"(3) and inv = "5.prems"(4)
  from cp obtain H1 memo1 y ys where
    x: "h_deepcopy n H memo x = Some (H1, memo1, y)"
    and xs: "h_deepcopy_list n H1 memo1 xs = Some (H', memo', ys)"
    and r: "cs' = y # ys"
    by (auto split: option.splits)
  from rd obtain w ws where w: "read n h x = Some w"
    and ws: "those (map (read n h) xs) = Some ws" and vs: "vs = w # ws"
    by (auto split: option.splits)
  have sw: "size w \<le> s" "\<forall>v\<in>set ws. size v \<le> s" using sz vs by simp_all
  from "5.IH"(1)[OF x w sw(1) inv]
  have i1: "copy_inv h H1 P s memo1" "sim h H1 x y" "done_cell H1 P y" by simp_all
  from "5.IH"(2)[OF x refl refl xs ws sw(2) i1(1)]
  have i2: "copy_inv h H' P s memo'" "list_all2 (sim h H') xs ys"
    "\<forall>c'\<in>set ys. done_cell H' P c'" by simp_all
  from h_deepcopy_extends(2)[OF xs] have e: "take (length H1) H' = H1" by blast
  have le: "length H1 \<le> length H'" using take_length_le[OF e refl] .
  have "sim h H' x y" by (rule sim_extend[OF i1(2) e])
  moreover have "done_cell H' P y" by (rule done_cell_mono[OF i1(3) le]) simp
  ultimately show ?case using i2 r by simp
qed

lemma copy_inv_init: "copy_inv h h {} s []"
  by (simp add: copy_inv_def closed_take unref_def obj_def memo_ok_def)

lemma h_init_load_copies:
  assumes "h_init_load pylog2 h0 load_tiles = (Inr b, h1)"
  shows "sim h0 h1 load_tiles (h_tiles b)"
proof -
  from h_init_load_Inr[OF assms] obtain xs memo where
    r: "read (length h0) h0 load_tiles = Some (PList xs)"
    and c: "h_deepcopy (length h0) h0 [] load_tiles = Some (h1, memo, h_tiles b)" by blast
  from h_deepcopy_sim(1)[OF c r order_refl copy_inv_init] show ?thesis by simp
qed

section \<open>Claims\<close>

text \<open>
  C8 (what the code does where the claim fails): an attacker whose \<open>think\<close> returns
  \<open>{"keepgoing": True, "location": ["a", None]}\<close> gets its decision back from
  \<open>get_place_instruction\<close>; no exception is raised although the elements of the
  location are not integers.
\<close>

theorem C8_non_int_location_accepted:
  "get_place_instruction
     (\<lambda>_. Inr (Dict [''keepgoing'' \<mapsto> PBool True,
                       ''location'' \<mapsto> PList [POther ''a'', PNone]])) tiles
   = Inr (Dict [''keepgoing'' \<mapsto> PBool True,
                ''location'' \<mapsto> PList [POther ''a'', PNone]])"
  by (simp add: get_place_instruction_def)

text \<open>
  C4 (failure atomicity of \<open>place\<close>): a location whose length differs from the rank, a
  location with a component that is not an int within the bounds of its dimension, and a
  location whose target cell does not hold 0 each make \<open>place\<close> return false with the
  board unchanged, whatever the random draw. On the fresh board of shape (2,2) the first
  \<open>place([0,0])\<close> returns true and puts a 2 or a 4 at [0,0]; the second returns false
  and leaves the board as it was.
\<close>

theorem C4_place_failure_atomic:
  "(length location \<noteq> length (get_shape b) \<longrightarrow> place b location r = Inr (False, b))
   \<and> ((\<exists>k<length location.
          \<forall>v. location ! k = PInt v \<longrightarrow> \<not> (0 \<le> v \<and> v < int (get_shape b ! k)))
        \<longrightarrow> place b location r = Inr (False, b))
   \<and> (in_shape (get_shape b) loc \<and> get_tile (get_tiles b) loc = Inr t \<and> t \<noteq> Tile 0
        \<longrightarrow> place b (map PInt loc) r = Inr (False, b))
   \<and> init_shape [2, 2]
        = Inr \<lparr>get_shape = [2, 2],
               get_tiles = Nested [Nested [Tile 0, Tile 0], Nested [Tile 0, Tile 0]]\<rparr>
   \<and> place \<lparr>get_shape = [2, 2],
             get_tiles = Nested [Nested [Tile 0, Tile 0], Nested [Tile 0, Tile 0]]\<rparr>
        [PInt 0, PInt 0] r1
        = Inr (True, \<lparr>get_shape = [2, 2],
                      get_tiles = Nested [Nested [Tile (if r1 < 9 then 2 else 4), Tile 0],
                                          Nested [Tile 0, Tile 0]]\<rparr>)
   \<and> place \<lparr>get_shape = [2, 2],
             get_tiles = Nested [Nested [Tile (if r1 < 9 then 2 else 4), Tile 0],
                                 Nested [Tile 0, Tile 0]]\<rparr>
        [PInt 0, PInt 0] r2
        = Inr (False, \<lparr>get_shape = [2, 2],
                       get_tiles = Nested [Nested [Tile (if r1 < 9 then 2 else 4), Tile 0],
                                           Nested [Tile 0, Tile 0]]\<rparr>)"
proof (intro conjI impI)
  assume "length location \<noteq> length (get_shape b)"
  then show "place b location r = Inr (False, b)" by (simp add: place_def)
next
  assume "\<exists>k<length location.
      \<forall>v. location ! k = PInt v \<longrightarrow> \<not> (0 \<le> v \<and> v < int (get_shape b ! k))"
  then show "place b location r = Inr (False, b)"
    using place_out_of_bounds by blast
next
  assume "in_shape (get_shape b) loc \<and> get_tile (get_tiles b) loc = Inr t \<and> t \<noteq> Tile 0"
  then show "place b (map PInt loc) r = Inr (False, b)"
    by (simp add: place_in_shape)
next
  show "init_shape [2, 2]
        = Inr \<lparr>get_shape = [2, 2],
               get_tiles = Nested [Nested [Tile 0, Tile 0], Nested [Tile 0, Tile 0]]\<rparr>"
    by (simp add: init_shape_def numeral_2_eq_2)
next
  show "place \<lparr>get_shape = [2, 2],
             get_tiles = Nested [Nested [Tile 0, Tile 0], Nested [Tile 0, Tile 0]]\<rparr>
        [PInt 0, PInt 0] r1
        = Inr (True, \<lparr>get_shape = [2, 2],
                      get_tiles = Nested [Nested [Tile (if r1 < 9 then 2 else 4), Tile 0],
                                          Nested [Tile 0, Tile 0]]\<rparr>)"
    by (simp add: place_def py_index_def py_pos_def)
next
  show "place \<lparr>get_shape = [2, 2],
             get_tiles = Nested [Nested [Tile (if r1 < 9 then 2 else 4), Tile 0],
                                 Nested [Tile 0, Tile 0]]\<rparr>
        [PInt 0, PInt 0] r2
        = Inr (False, \<lparr>get_shape = [2, 2],
                       get_tiles = Nested [Nested [Tile (if r1 < 9 then 2 else 4), Tile 0],
                                           Nested [Tile 0, Tile 0]]\<rparr>)"
    by (simp add: place_def py_index_def py_pos_def)
qed

theorem C4_place_failure_atomic_witness:
  "length [PInt 0] \<noteq> length (get_shape \<lparr>get_shape = [2, 2],
        get_tiles = Nested [Nested [Tile 2, Tile 0], Nested [Tile 0, Tile 0]]\<rparr>)
   \<and> place \<lparr>get_shape = [2, 2],
        get_tiles = Nested [Nested [Tile 2, Tile 0], Nested [Tile 0, Tile 0]]\<rparr> [PInt 0] 3
      = Inr (False, \<lparr>get_shape = [2, 2],
        get_tiles = Nested [Nested [Tile 2, Tile 0], Nested [Tile 0, Tile 0]]\<rparr>)
   \<and> [PInt 1, PInt 2] ! 1 = PInt 2 \<and> \<not> (2 < int ([2, 2::nat] ! 1))
   \<and> place \<lparr>get_shape = [2, 2],
        get_tiles = Nested [Nested [Tile 2, Tile 0], Nested [Tile 0, Tile 0]]\<rparr>
        [PInt 1, PInt 2] 3
      = Inr (False, \<lparr>get_shape = [2, 2],
        get_tiles = Nested [Nested [Tile 2, Tile 0], Nested [Tile 0, Tile 0]]\<rparr>)
   \<and> in_shape [2, 2] [0, 0]
   \<and> get_tile (Nested [Nested [Tile 2, Tile 0], Nested [Tile 0, Tile 0]]) [0, 0] = Inr (Tile 2)
   \<and> place \<lparr>get_shape = [2, 2],
        get_tiles = Nested [Nested [Tile 2, Tile 0], Nested [Tile 0, Tile 0]]\<rparr>
        (map PInt [0, 0]) 3
      = Inr (False, \<lparr>get_shape = [2, 2],
        get_tiles = Nested [Nested [Tile 2, Tile 0], Nested [Tile 0, Tile 0]]\<rparr>)"
proof -
  let ?b = "\<lparr>get_shape = [2, 2],
        get_tiles = Nested [Nested [Tile 2, Tile 0], Nested [Tile 0, Tile 0]]\<rparr>"
  have h1: "length [PInt 0] \<noteq> length (get_shape ?b)" by simp
  have h2: "\<exists>k<length [PInt 1, PInt 2].
      \<forall>v. [PInt 1, PInt 2] ! k = PInt v \<longrightarrow> \<not> (0 \<le> v \<and> v < int (get_shape ?b ! k))"
    by (rule exI[of _ 1]) simp
  have h3: "in_shape (get_shape ?b) [0, 0] \<and> get_tile (get_tiles ?b) [0, 0] = Inr (Tile 2)
      \<and> Tile 2 \<noteq> Tile 0"
    by (simp add: in_shape_def py_index_def py_pos_def)
  from C4_place_failure_atomic[where location = "[PInt 0]" and b = ?b and r = 3] h1
  have a: "place ?b [PInt 0] 3 = Inr (False, ?b)" by blast
  from C4_place_failure_atomic[where location = "[PInt 1, PInt 2]" and b = ?b and r = 3] h2
  have b: "place ?b [PInt 1, PInt 2] 3 = Inr (False, ?b)" by blast
  from C4_place_failure_atomic[where b = ?b and loc = "[0, 0]" and t = "Tile 2" and r = 3] h3
  have c: "place ?b (map PInt [0, 0]) 3 = Inr (False, ?b)" by blast
  show ?thesis using a b c h3 by (simp del: list.map)
qed

text \<open>
  C3 (sum invariant): on every valid board, a call of \<open>move\<close>, with any dimension and
  direction, returns and leaves the total of the tile values as it was; a call of
  \<open>place\<close>, with any location and any random draw, returns, and the total has grown by
  exactly 2 or exactly 4 when it returned true and is unchanged when it returned false.
\<close>

theorem C3_sum_invariant:
  assumes "valid_board b"
  shows "(\<exists>changed b'. move b dimension direction = Inr (changed, b')
            \<and> sum_tiles (get_tiles b') = sum_tiles (get_tiles b))
       \<and> (\<exists>placed b'. place b location r = Inr (placed, b')
            \<and> (if placed
                then sum_tiles (get_tiles b') = sum_tiles (get_tiles b) + 2
                     \<or> sum_tiles (get_tiles b') = sum_tiles (get_tiles b) + 4
                else sum_tiles (get_tiles b') = sum_tiles (get_tiles b)))"
proof
  show "\<exists>changed b'. move b dimension direction = Inr (changed, b')
            \<and> sum_tiles (get_tiles b') = sum_tiles (get_tiles b)"
    using move_valid_sum[OF assms, of dimension direction] by blast
  from place_valid[OF assms, of location r] obtain placed b' where
    p: "place b location r = Inr (placed, b')"
    "if placed
         then sum_tiles (get_tiles b') = sum_tiles (get_tiles b) + 2
              \<or> sum_tiles (get_tiles b') = sum_tiles (get_tiles b) + 4
         else b' = b" by blast
  show "\<exists>placed b'. place b location r = Inr (placed, b')
            \<and> (if placed
                then sum_tiles (get_tiles b') = sum_tiles (get_tiles b) + 2
                     \<or> sum_tiles (get_tiles b') = sum_tiles (get_tiles b) + 4
                else sum_tiles (get_tiles b') = sum_tiles (get_tiles b))"
    by (rule exI[of _ placed], rule exI[of _ b']) (use p in \<open>auto split: if_splits\<close>)
qed

theorem C3_sum_invariant_witness:
  "valid_board \<lparr>get_shape = [2, 2],
       get_tiles = Nested [Nested [Tile 2, Tile 0], Nested [Tile 2, Tile 4]]\<rparr>
   \<and> (\<exists>changed b'. move \<lparr>get_shape = [2, 2],
          get_tiles = Nested [Nested [Tile 2, Tile 0], Nested [Tile 2, Tile 4]]\<rparr> 0 (- 1)
          = Inr (changed, b') \<and> sum_tiles (get_tiles b') = 8)
   \<and> (\<exists>placed b'. place \<lparr>get_shape = [2, 2],
          get_tiles = Nested [Nested [Tile 2, Tile 0], Nested [Tile 2, Tile 4]]\<rparr>
          [PInt 0, PInt 1] 9 = Inr (placed, b')
        \<and> (if placed then sum_tiles (get_tiles b') = 8 + 2 \<or> sum_tiles (get_tiles b') = 8 + 4
            else sum_tiles (get_tiles b') = 8))"
proof -
  let ?b = "\<lparr>get_shape = [2, 2],
       get_tiles = Nested [Nested [Tile 2, Tile 0], Nested [Tile 2, Tile 4]]\<rparr>"
  have v: "valid_board ?b" by (simp add: valid_board_def)
  have s: "sum_tiles (get_tiles ?b) = 8" by simp
  from C3_sum_invariant[OF v, of 0 "- 1" "[PInt 0, PInt 1]" 9] v show ?thesis
    unfolding s by blast
qed

text \<open>
  C2 (what \<open>move\<close> returns): on every valid board, for every dimension and direction
  (valid or not), \<open>move\<close> returns; it returns true exactly when the tiles after the call
  differ from the tiles before it, and when it returns false the board is unchanged.
  (The steps \<open>move\<close> counts are its relocations and merges; each lowers the potential,
  so no sequence of them restores the tiles.)
\<close>

theorem C2_move_true_iff_changed:
  assumes "valid_board b"
  shows "\<exists>changed b'. move b dimension direction = Inr (changed, b')
           \<and> (changed \<longleftrightarrow> get_tiles b' \<noteq> get_tiles b)
           \<and> (\<not> changed \<longrightarrow> b' = b)"
proof (cases "0 \<le> dimension \<and> dimension < int (length (get_shape b))
      \<and> (direction = -1 \<or> direction = 1)")
  case True
  let ?d = "nat dimension"
  let ?P = "pot (get_shape b) ?d direction"
  have d: "?d < length (get_shape b)" using True by (simp add: nat_less_iff)
  have "\<exists>s t bl. move_run b dimension direction = Inr (Some (s, t, bl))
           \<and> (\<lambda>(s, t, bl). ?P t + int s \<le> ?P (get_tiles b) \<and> (s = 0 \<longrightarrow> t = get_tiles b))
                (s, t, bl)
           \<and> regular (get_shape b) t"
  proof (rule move_run_valid[OF assms], goal_cases)
    case (5 c s t bl s' t' bl')
    from move_tile_pot[OF 5(2,1) d, of direction bl] True 5(3,4) show ?case by auto
  qed (use True in auto)
  then obtain s t bl where r: "move_run b dimension direction = Inr (Some (s, t, bl))"
    and p: "?P t + int s \<le> ?P (get_tiles b)" and z: "s = 0 \<longrightarrow> t = get_tiles b"
    by auto
  have m: "move b dimension direction = Inr (0 < s, b\<lparr>get_tiles := t\<rparr>)"
    by (simp add: move_def r)
  have "0 < s \<longleftrightarrow> t \<noteq> get_tiles b"
  proof
    assume "0 < s"
    with p have "?P t < ?P (get_tiles b)" by simp
    then show "t \<noteq> get_tiles b" by auto
  next
    assume "t \<noteq> get_tiles b"
    with z show "0 < s" by auto
  qed
  then show ?thesis using m z
    by (intro exI[of _ "0 < s"] exI[of _ "b\<lparr>get_tiles := t\<rparr>"]) auto
next
  case False
  then have "move_run b dimension direction = Inr None" by (auto simp: move_run_def)
  then have "move b dimension direction = Inr (False, b)" by (simp add: move_def)
  then show ?thesis by (intro exI[of _ False] exI[of _ b]) simp
qed

theorem C2_move_true_iff_changed_witness:
  "valid_board \<lparr>get_shape = [2, 2],
       get_tiles = Nested [Nested [Tile 2, Tile 0], Nested [Tile 2, Tile 4]]\<rparr>
   \<and> (\<exists>changed b'. move \<lparr>get_shape = [2, 2],
          get_tiles = Nested [Nested [Tile 2, Tile 0], Nested [Tile 2, Tile 4]]\<rparr> 0 (- 1)
          = Inr (changed, b')
        \<and> (changed \<longleftrightarrow> get_tiles b' \<noteq> Nested [Nested [Tile 2, Tile 0], Nested [Tile 2, Tile 4]]))
   \<and> move \<lparr>get_shape = [2, 2],
          get_tiles = Nested [Nested [Tile 2, Tile 0], Nested [Tile 2, Tile 4]]\<rparr> 1 (- 1)
        = Inr (False, \<lparr>get_shape = [2, 2],
          get_tiles = Nested [Nested [Tile 2, Tile 0], Nested [Tile 2, Tile 4]]\<rparr>)"
proof -
  let ?b = "\<lparr>get_shape = [2, 2],
       get_tiles = Nested [Nested [Tile 2, Tile 0], Nested [Tile 2, Tile 4]]\<rparr>"
  have v: "valid_board ?b" by (simp add: valid_board_def)
  have f: "move ?b 1 (- 1) = Inr (False, ?b)" by code_simp
  from C2_move_true_iff_changed[OF v, of 0 "- 1"] v f show ?thesis
    by (simp del: move_tile.simps) blast
qed

text \<open>
  C6 as stated fails where a line is full and two neighbours are equal: the line [2,2]
  has no empty cell at all, and \<open>move\<close> merges it into [4,0].
\<close>

theorem C6_full_line_merges_counterexample:
  "no_reachable_empty (line_values [2] 0 (- 1) (Nested [Tile 2, Tile 2]) [0])
   \<and> move \<lparr>get_shape = [2], get_tiles = Nested [Tile 2, Tile 2]\<rparr> 0 (- 1)
       = Inr (True, \<lparr>get_shape = [2], get_tiles = Nested [Tile 4, Tile 0]\<rparr>)
   \<and> line_values [2] 0 (- 1) (Nested [Tile 4, Tile 0]) [0]
       \<noteq> line_values [2] 0 (- 1) (Nested [Tile 2, Tile 2]) [0]"
  by code_simp


text \<open>
  C6 (amended): on every valid board, for every valid dimension and direction, \<open>move\<close>
  returns and leaves unchanged every line that has no reachable empty cell in the
  direction of the move and no two equal neighbouring tiles.
\<close>

theorem C6_settled_line_unchanged:
  assumes "valid_board b"
    and "0 \<le> dimension" "dimension < int (length (get_shape b))"
    and "direction = -1 \<or> direction = 1"
    and "in_shape (get_shape b) c0"
    and "no_reachable_empty
           (line_values (get_shape b) (nat dimension) direction (get_tiles b) c0)"
    and "no_equal_neighbours
           (line_values (get_shape b) (nat dimension) direction (get_tiles b) c0)"
  shows "\<exists>changed b'. move b dimension direction = Inr (changed, b')
           \<and> line_values (get_shape b) (nat dimension) direction (get_tiles b') c0
             = line_values (get_shape b) (nat dimension) direction (get_tiles b) c0"
proof -
  let ?d = "nat dimension"
  let ?sh = "get_shape b"
  have d: "?d < length ?sh" using assms(2,3) by (simp add: nat_less_iff)
  have "\<exists>s t bl. move_run b dimension direction = Inr (Some (s, t, bl))
           \<and> (\<lambda>(s, t, bl). \<forall>c. in_shape ?sh c \<and> same_line ?d c c0
                 \<longrightarrow> tile_at t c = tile_at (get_tiles b) c) (s, t, bl)
           \<and> regular ?sh t"
  proof (rule move_run_valid[OF assms(1-4)], goal_cases)
    case 1
    show ?case by simp
  next
    case (2 c s t bl s' t' bl')
    then have inv: "\<forall>c. in_shape ?sh c \<and> same_line ?d c c0
                 \<longrightarrow> tile_at t c = tile_at (get_tiles b) c" by simp
    show ?case
    proof (cases "same_line ?d c c0")
      case True
      have lv: "line_values ?sh ?d direction t c0
          = line_values ?sh ?d direction (get_tiles b) c0"
        by (rule line_values_eqI[OF assms(5) d inv])
      have "move_tile ?sh ?d direction (t, bl) c = Inr (0, t, bl)"
        by (rule move_tile_stuck[OF 2(2,1) d assms(4,5) True])
          (simp_all add: lv assms(6,7))
      with 2(4) have "t' = t" by simp
      with inv show ?thesis by simp
    next
      case False
      from move_tile_frame[OF 2(2,1) d assms(4), of bl] 2(4)
      have fr: "\<forall>c'. in_shape ?sh c' \<and> \<not> same_line ?d c c' \<longrightarrow> tile_at t' c' = tile_at t c'"
        by simp
      have "tile_at t' c' = tile_at (get_tiles b) c'"
        if "in_shape ?sh c'" "same_line ?d c' c0" for c'
      proof -
        have "\<not> same_line ?d c c'" using False that(2) by (auto simp: same_line_def)
        with fr that(1) have "tile_at t' c' = tile_at t c'" by simp
        with inv that show ?thesis by simp
      qed
      then show ?thesis by simp
    qed
  qed
  then obtain s t bl where r: "move_run b dimension direction = Inr (Some (s, t, bl))"
    and inv: "\<forall>c. in_shape ?sh c \<and> same_line ?d c c0
                 \<longrightarrow> tile_at t c = tile_at (get_tiles b) c"
    by auto
  have m: "move b dimension direction = Inr (0 < s, b\<lparr>get_tiles := t\<rparr>)"
    by (simp add: move_def r)
  have "line_values ?sh ?d direction t c0 = line_values ?sh ?d direction (get_tiles b) c0"
    by (rule line_values_eqI[OF assms(5) d inv])
  then show ?thesis using m
    by (intro exI[of _ "0 < s"] exI[of _ "b\<lparr>get_tiles := t\<rparr>"]) simp
qed


theorem C6_settled_line_unchanged_witness:
  "valid_board \<lparr>get_shape = [2, 2],
       get_tiles = Nested [Nested [Tile 2, Tile 4], Nested [Tile 0, Tile 2]]\<rparr>
   \<and> in_shape [2, 2] [0, 0]
   \<and> line_values [2, 2] 1 (- 1) (Nested [Nested [Tile 2, Tile 4], Nested [Tile 0, Tile 2]])
        [0, 0] = [2, 4]
   \<and> no_reachable_empty [2, 4] \<and> no_equal_neighbours [2, 4]
   \<and> (\<exists>changed b'. move \<lparr>get_shape = [2, 2],
          get_tiles = Nested [Nested [Tile 2, Tile 4], Nested [Tile 0, Tile 2]]\<rparr> 1 (- 1)
          = Inr (changed, b')
        \<and> line_values [2, 2] 1 (- 1) (get_tiles b') [0, 0] = [2, 4])"
proof -
  let ?b = "\<lparr>get_shape = [2, 2],
       get_tiles = Nested [Nested [Tile 2, Tile 4], Nested [Tile 0, Tile 2]]\<rparr>"
  have v: "valid_board ?b" by (simp add: valid_board_def)
  have i: "in_shape (get_shape ?b) [0, 0]" by (simp add: in_shape_def)
  have l: "line_values (get_shape ?b) (nat 1) (- 1) (get_tiles ?b) [0, 0] = [2, 4]"
    by code_simp
  have n: "no_reachable_empty
        (line_values (get_shape ?b) (nat 1) (- 1) (get_tiles ?b) [0, 0])"
    "no_equal_neighbours
        (line_values (get_shape ?b) (nat 1) (- 1) (get_tiles ?b) [0, 0])"
    unfolding l by simp_all
  from C6_settled_line_unchanged[OF v _ _ _ i n, of] l v i
  show ?thesis by simp
qed






text \<open>
  C7 (the guard of the leaves): \<open>validate_tiles\<close> tests \<open>log(v,2)%1 != 0\<close> in
  floating point. Whatever the computed logarithm is, if it is \<open>0.0\<close> at 1, \<open>1.0\<close>
  at 2 and \<open>48.0\<close> at \<open>2^48 - 1\<close> (the values \<open>math.log\<close> returns), then the layout
  \<open>[2^48 - 1, 2]\<close> is accepted although \<open>2^48 - 1\<close> is no power of two, and the
  layout \<open>[1, 1]\<close> is accepted although 1 is neither 0 nor \<open>2^k\<close> with \<open>k \<ge> 1\<close>.
\<close>

theorem C7_guard_accepts_non_powers:
  assumes "pylog2 1 = 0" and "pylog2 2 = 1" and "pylog2 281474976710655 = 48"
  shows "Board_init pylog2 shape (PList [PInt 281474976710655, PInt 2])
       = Inr \<lparr>get_shape = [2], get_tiles = Nested [Tile 281474976710655, Tile 2]\<rparr>
     \<and> (281474976710655::int) = 2 ^ 48 - 1
     \<and> \<not> (\<exists>k. (281474976710655::int) = 2 ^ k)
     \<and> Board_init pylog2 shape (PList [PInt 1, PInt 1])
       = Inr \<lparr>get_shape = [2], get_tiles = Nested [Tile 1, Tile 1]\<rparr>
     \<and> \<not> leaf_invariant 1"
proof -
  have s: "str_len (PList [PInt 281474976710655, PInt 2]) = 20"
    by (simp add: int_str_len_def digits10_15)
  have v: "validate_tiles pylog2 [PInt 281474976710655, PInt 2] 0 (- 1) Map.empty
      = Inr (- 1, 0, [0 \<mapsto> Suc (Suc 0)])"
    using assms by simp
  have a: "Board_init pylog2 shape (PList [PInt 281474976710655, PInt 2])
       = Inr \<lparr>get_shape = [2], get_tiles = Nested [Tile 281474976710655, Tile 2]\<rparr>"
    unfolding Board_init_load init_load_def s v by simp
  have b: "Board_init pylog2 shape (PList [PInt 1, PInt 1])
       = Inr \<lparr>get_shape = [2], get_tiles = Nested [Tile 1, Tile 1]\<rparr>"
    using assms(1) by (simp add: Board_init_def init_load_def int_str_len_def)
  have "k \<ge> 1 \<Longrightarrow> (1::int) \<noteq> 2 ^ k" for k :: nat
  proof -
    assume "k \<ge> 1"
    then have "(2::int) ^ 1 \<le> 2 ^ k" by (intro power_increasing) simp_all
    then show ?thesis by simp
  qed
  then have c: "\<not> leaf_invariant 1" by (auto simp: leaf_invariant_def)
  have e: "(281474976710655::int) = 2 ^ 48 - 1" by simp
  from a b c e not_power_of_two show ?thesis by blast
qed

theorem C7_guard_accepts_non_powers_witness:
  "(\<lambda>v. if v = 1 then 0 else if v = 2 then 1 else 48) (1::int) = (0::real)
   \<and> (\<lambda>v. if v = 1 then 0 else if v = 2 then 1 else 48) (2::int) = (1::real)
   \<and> (\<lambda>v. if v = 1 then 0 else if v = 2 then 1 else 48) (281474976710655::int) = (48::real)
   \<and> Board_init (\<lambda>v. if v = 1 then 0 else if v = 2 then 1 else 48) [4, 4]
        (PList [PInt 281474976710655, PInt 2])
       = Inr \<lparr>get_shape = [2], get_tiles = Nested [Tile 281474976710655, Tile 2]\<rparr>
   \<and> Board_init (\<lambda>v. if v = 1 then 0 else if v = 2 then 1 else 48) [4, 4]
        (PList [PInt 1, PInt 1])
       = Inr \<lparr>get_shape = [2], get_tiles = Nested [Tile 1, Tile 1]\<rparr>"
proof -
  let ?lg = "\<lambda>v::int. if v = 1 then 0 else if v = 2 then 1 else (48::real)"
  have h: "?lg 1 = 0" "?lg 2 = 1" "?lg 281474976710655 = 48" by simp_all
  from C7_guard_accepts_non_powers[of ?lg "[4, 4]", OF h] h show ?thesis by blast
qed

text \<open>
  C9 (a round whose attacker gives up): when the board is built and the attacker's first
  answer is a well-formed decision with \<open>keepgoing\<close> false (as it is when every answer
  is), \<open>start\<close> returns: it ends with the score of the initial board, the board
  unchanged, the attacker's state after exactly one call of its \<open>think\<close>, and the
  defender's state untouched (the defender was never queried).
\<close>

theorem C9_attacker_gives_up_at_once:
  assumes "Board_init pylog2 board_shape board_tiles = Inr board"
    and "attacker a (get_tiles board) = (Inr (Dict decision), a')"
    and "card (dom decision) = 2"
    and "decision ''keepgoing'' = Some (PBool False)"
    and "decision ''location'' = Some location"
  shows "\<exists>score. get_score pylog2 (get_tiles board) 0 = Inr score
     \<and> start pylog2 board_shape board_tiles (Some (attacker, a)) (Some (defender, d)) randint
         = Some (Score score board a' d)"
proof -
  from Board_init_score[OF assms(1)] obtain score where
    sc: "get_score pylog2 (get_tiles board) 0 = Inr score" by blast
  have g: "get_place_instruction (\<lambda>tiles. fst (attacker a tiles)) (get_tiles board)
      = Inr (Dict decision)"
    using assms(2-5) by (simp add: get_place_instruction_def)
  have k: "\<not> keepgoing_of (Dict decision)" using assms(4) by (simp add: keepgoing_of_def)
  have "round_step pylog2 attacker defender randint (Attack, board, a, d, 0)
      = Inr (Score score board a' d)"
    using g k sc assms(2) by (simp add: round_step_def round_score_def)
  then have "round_loop (round_step pylog2 attacker defender randint) (Attack, board, a, d, 0)
      = Some (Score score board a' d)"
    by (subst round_loop.simps) simp
  then show ?thesis using sc assms(1) by (simp add: start_def)
qed

theorem C9_attacker_gives_up_at_once_witness:
  "Board_init (\<lambda>v. log 2 (real_of_int v)) [2, 2] (PList [])
     = Inr \<lparr>get_shape = [2, 2],
            get_tiles = Nested [Nested [Tile 0, Tile 0], Nested [Tile 0, Tile 0]]\<rparr>
   \<and> card (dom [''keepgoing'' \<mapsto> PBool False, ''location'' \<mapsto> PNone]) = 2
   \<and> get_score (\<lambda>v. log 2 (real_of_int v))
        (Nested [Nested [Tile 0, Tile 0], Nested [Tile 0, Tile 0]]) 0 = Inr 0
   \<and> start (\<lambda>v. log 2 (real_of_int v)) [2, 2] (PList [])
        (Some (\<lambda>a tiles. (Inr (Dict [''keepgoing'' \<mapsto> PBool False,
                                       ''location'' \<mapsto> PNone]), Suc a), 0::nat))
        (Some (\<lambda>d tiles. (Inr (Dict [''keepgoing'' \<mapsto> PBool False,
                                       ''dimension'' \<mapsto> PNone, ''direction'' \<mapsto> PNone]),
                           Suc d), 0::nat))
        (\<lambda>n. 0)
      = Some (Score 0 \<lparr>get_shape = [2, 2],
            get_tiles = Nested [Nested [Tile 0, Tile 0], Nested [Tile 0, Tile 0]]\<rparr> 1 0)"
proof -
  let ?lg = "\<lambda>v. log 2 (real_of_int v)"
  let ?b = "\<lparr>get_shape = [2, 2],
            get_tiles = Nested [Nested [Tile 0, Tile 0], Nested [Tile 0, Tile 0]]\<rparr>"
  let ?dec = "[''keepgoing'' \<mapsto> PBool False, ''location'' \<mapsto> PNone]"
  let ?att = "\<lambda>a tiles. (Inr (Dict ?dec) :: error + instruction, Suc a)"
  let ?def = "\<lambda>d tiles. (Inr (Dict [''keepgoing'' \<mapsto> PBool False,
      ''dimension'' \<mapsto> PNone, ''direction'' \<mapsto> PNone]) :: error + instruction, Suc d)"
  have i: "Board_init ?lg [2, 2] (PList []) = Inr ?b"
    by (simp add: Board_init_def init_shape_def numeral_2_eq_2)
  have t: "?att 0 (get_tiles ?b) = (Inr (Dict ?dec), Suc 0)" by simp
  have c: "card (dom ?dec) = 2" by simp
  have s: "get_score ?lg (get_tiles ?b) 0 = Inr 0" by simp
  from C9_attacker_gives_up_at_once[of ?lg "[2, 2]" "PList []" ?b ?att 0 ?dec "Suc 0"
      PNone ?def 0 "\<lambda>n. 0"] i c s
  have "start ?lg [2, 2] (PList []) (Some (?att, 0)) (Some (?def, 0)) (\<lambda>n. 0)
      = Some (Score 0 ?b (Suc 0) 0)"
    by simp
  with i c s show ?thesis by simp
qed

text \<open>
  C10 (the layout is copied): whenever \<open>Board(shape, load_tiles=L)\<close> returns a board,
  in any store and for any \<open>L\<close>, then after any sequence of \<open>place\<close> and \<open>move\<close>
  calls on that board (whatever their arguments, and whether they return or raise):
  the tiles of the board are a list created by the constructor, and so is every list
  reached from them; every list that existed before the construction is as it was; and
  every cell that had a value before the construction, \<open>L\<close> among them, has the same
  value. When \<open>L\<close> is a non-empty list, the tiles of the new board have the value of
  \<open>L\<close>.
\<close>

theorem C10_layout_not_aliased:
  assumes "h_Board_init pylog2 h0 shape load_tiles = (Inr b, h1)"
  shows "fresh_cell (length h0) (h_tiles b)
    \<and> (\<forall>location t. h_get_tile (h_calls b h1 calls) (h_tiles b) location = Inr t
           \<longrightarrow> fresh_cell (length h0) t)
    \<and> take (length h0) (h_calls b h1 calls) = h0
    \<and> (\<forall>c n v. read n h0 c = Some v \<longrightarrow> read n (h_calls b h1 calls) c = Some v)
    \<and> (\<forall>a. load_tiles = CRef a \<and> obj h0 a \<noteq> [] \<longrightarrow>
          (\<exists>xs. read (length h0) h0 load_tiles = Some (PList xs)
             \<and> read (length h0) h1 (h_tiles b) = Some (PList xs)))"
proof -
  note i = h_Board_init_frame[OF assms]
  from h_calls_frame[OF i, of calls]
  have f: "frame_inv h0 (h_calls b h1 calls)" .
  then have c: "closed (length h0) (h_calls b h1 calls)" by (simp add: frame_inv_def)
  have g: "\<forall>location t. h_get_tile (h_calls b h1 calls) (h_tiles b) location = Inr t
           \<longrightarrow> fresh_cell (length h0) t"
    using h_get_tile_fresh[OF _ c i(2)] by blast
  have t: "take (length h0) (h_calls b h1 calls) = h0" using f by (simp add: frame_inv_def)
  have r: "\<forall>c n v. read n h0 c = Some v \<longrightarrow> read n (h_calls b h1 calls) c = Some v"
    using read_stable[OF _ t] by blast
  have v: "\<exists>xs. read (length h0) h0 load_tiles = Some (PList xs)
             \<and> read (length h0) h1 (h_tiles b) = Some (PList xs)"
    if "load_tiles = CRef a \<and> obj h0 a \<noteq> []" for a
  proof -
    from that assms have l: "h_init_load pylog2 h0 load_tiles = (Inr b, h1)"
      by (simp add: h_Board_init_def)
    from h_init_load_Inr[OF l] obtain xs where
      x: "read (length h0) h0 load_tiles = Some (PList xs)" by blast
    from h_init_load_copies[OF l] x
    have "read (length h0) h1 (h_tiles b) = Some (PList xs)" by (simp add: sim_def)
    with x show ?thesis by blast
  qed
  from i(2) g t r v show ?thesis by blast
qed

theorem C10_layout_not_aliased_witness:
  "h_Board_init (\<lambda>v. log 2 (real_of_int v))
       [[CRef 1, CRef 2], [CInt 2, CInt 2], [CInt 0, CInt 4]] [4, 4] (CRef 0)
     = (Inr \<lparr>h_shape = [2, 2], h_tiles = CRef 3\<rparr>,
        [[CRef 1, CRef 2], [CInt 2, CInt 2], [CInt 0, CInt 4],
         [CRef 4, CRef 5], [CInt 2, CInt 2], [CInt 0, CInt 4]])
   \<and> read 3 [[CRef 1, CRef 2], [CInt 2, CInt 2], [CInt 0, CInt 4],
         [CRef 4, CRef 5], [CInt 2, CInt 2], [CInt 0, CInt 4]] (CRef 3)
     = Some (PList [PList [PInt 2, PInt 2], PList [PInt 0, PInt 4]])
   \<and> h_calls \<lparr>h_shape = [2, 2], h_tiles = CRef 3\<rparr>
       [[CRef 1, CRef 2], [CInt 2, CInt 2], [CInt 0, CInt 4],
        [CRef 4, CRef 5], [CInt 2, CInt 2], [CInt 0, CInt 4]]
       [Move 1 (- 1), Place [PInt 1, PInt 1] 3]
     = [[CRef 1, CRef 2], [CInt 2, CInt 2], [CInt 0, CInt 4],
        [CRef 4, CRef 5], [CInt 4, CInt 0], [CInt 4, CInt 2]]
   \<and> take 3 (h_calls \<lparr>h_shape = [2, 2], h_tiles = CRef 3\<rparr>
       [[CRef 1, CRef 2], [CInt 2, CInt 2], [CInt 0, CInt 4],
        [CRef 4, CRef 5], [CInt 2, CInt 2], [CInt 0, CInt 4]]
       [Move 1 (- 1), Place [PInt 1, PInt 1] 3])
     = [[CRef 1, CRef 2], [CInt 2, CInt 2], [CInt 0, CInt 4]]
   \<and> read 3 [[CRef 1, CRef 2], [CInt 2, CInt 2], [CInt 0, CInt 4]] (CRef 0)
     = Some (PList [PList [PInt 2, PInt 2], PList [PInt 0, PInt 4]])
   \<and> read 3 (h_calls \<lparr>h_shape = [2, 2], h_tiles = CRef 3\<rparr>
       [[CRef 1, CRef 2], [CInt 2, CInt 2], [CInt 0, CInt 4],
        [CRef 4, CRef 5], [CInt 2, CInt 2], [CInt 0, CInt 4]]
       [Move 1 (- 1), Place [PInt 1, PInt 1] 3]) (CRef 0)
     = Some (PList [PList [PInt 2, PInt 2], PList [PInt 0, PInt 4]])"
proof -
  let ?lg = "\<lambda>v. log 2 (real_of_int v)"
  let ?h0 = "[[CRef 1, CRef 2], [CInt 2, CInt 2], [CInt 0, CInt 4]]"
  let ?h1 = "[[CRef 1, CRef 2], [CInt 2, CInt 2], [CInt 0, CInt 4],
         [CRef 4, CRef 5], [CInt 2, CInt 2], [CInt 0, CInt 4]]"
  let ?b = "\<lparr>h_shape = [2, 2], h_tiles = CRef 3\<rparr>"
  let ?cs = "[Move 1 (- 1), Place [PInt 1, PInt 1] 3]"
  let ?v = "PList [PList [PInt 2, PInt 2], PList [PInt 0, PInt 4]]"
  have r: "read (length ?h0) ?h0 (CRef 0) = Some ?v" by code_simp
  have r3: "read 3 ?h0 (CRef 0) = Some ?v" by code_simp
  have v: "init_load ?lg [PList [PInt 2, PInt 2], PList [PInt 0, PInt 4]]
      = Inr \<lparr>get_shape = [2, 2],
             get_tiles = Nested [Nested [Tile 2, Tile 2], Nested [Tile 0, Tile 4]]\<rparr>"
    by (simp add: init_load_def int_str_len_def log2_4)
  have d: "h_deepcopy (length ?h0) ?h0 [] (CRef 0) = Some (?h1, [(2, 5), (1, 4), (0, 3)], CRef 3)"
    by code_simp
  have o: "0 < length (obj ?h0 0)" by code_simp
  have o': "obj ?h0 0 \<noteq> []" by (simp add: obj_def)
  have i: "h_Board_init ?lg ?h0 [4, 4] (CRef 0) = (Inr ?b, ?h1)"
    using h_Board_init_load[OF r v d o, of "[4, 4]"] by simp
  have c: "h_calls ?b ?h1 ?cs
      = [[CRef 1, CRef 2], [CInt 2, CInt 2], [CInt 0, CInt 4],
         [CRef 4, CRef 5], [CInt 4, CInt 0], [CInt 4, CInt 2]]"
    by code_simp
  have l: "length ?h0 = 3" by simp
  from C10_layout_not_aliased[OF i, of ?cs]
  have t0: "take (length ?h0) (h_calls ?b ?h1 ?cs) = ?h0"
    and s: "\<forall>c n v. read n ?h0 c = Some v \<longrightarrow> read n (h_calls ?b ?h1 ?cs) c = Some v"
    and e: "\<forall>a. CRef 0 = CRef a \<and> obj ?h0 a \<noteq> [] \<longrightarrow>
          (\<exists>xs. read (length ?h0) ?h0 (CRef 0) = Some (PList xs)
             \<and> read (length ?h0) ?h1 (h_tiles ?b) = Some (PList xs))"
    by blast+
  have t: "take 3 (h_calls ?b ?h1 ?cs) = ?h0" using t0 by (simp only: l)
  from s r3 have rl: "read 3 (h_calls ?b ?h1 ?cs) (CRef 0) = Some ?v" by blast
  from e o' obtain xs where "read (length ?h0) ?h0 (CRef 0) = Some (PList xs)"
    "read (length ?h0) ?h1 (h_tiles ?b) = Some (PList xs)" by blast
  with r have "read (length ?h0) ?h1 (h_tiles ?b) = Some ?v" by simp
  then have rb: "read 3 ?h1 (CRef 3) = Some ?v" by (simp only: l hboard.simps)
  from i rb c t r3 rl show ?thesis by (simp only: simp_thms)
qed

end
